theory Spec2Isabelle
  imports Main "HOL-Library.List_Lexorder" "HOL-Library.Sublist"
begin

section \<open>Python strings\<close>

text \<open>
  A Python \<open>str\<close> is a sequence of Unicode code points. It is modelled as a list of
  natural numbers, one per code point, so that \<open>len\<close>, slicing, comparison and the
  UTF-8 length are those of Python. A literal is written \<open>lit ''abc''\<close>.
\<close>

type_synonym pystr = "nat list"

abbreviation lit :: "string \<Rightarrow> pystr" where
  "lit s \<equiv> map of_char s"

text \<open>
  \<open>str.isspace\<close> on one code point, which is also what \<open>\s\<close> matches in a
  \<open>re\<close> pattern on \<open>str\<close> and what \<open>str.strip()\<close> removes.
\<close>

definition is_space :: "nat \<Rightarrow> bool" where
  "is_space c \<longleftrightarrow>
     (9 \<le> c \<and> c \<le> 13) \<or> (28 \<le> c \<and> c \<le> 32) \<or> c = 133 \<or> c = 160 \<or> c = 5760 \<or>
     (8192 \<le> c \<and> c \<le> 8202) \<or> c = 8232 \<or> c = 8233 \<or> c = 8239 \<or> c = 8287 \<or> c = 12288"

definition lstrip :: "pystr \<Rightarrow> pystr" where
  "lstrip s = dropWhile is_space s"

definition rstrip :: "pystr \<Rightarrow> pystr" where
  "rstrip s = rev (dropWhile is_space (rev s))"

definition strip :: "pystr \<Rightarrow> pystr" where
  "strip s = rstrip (lstrip s)"

text \<open>\<open>s.split(sep, 1)\<close>: None when \<open>sep\<close> does not occur (the result has one part),
  otherwise the text before and after the leftmost occurrence.\<close>

fun split_once :: "pystr \<Rightarrow> pystr \<Rightarrow> (pystr \<times> pystr) option" where
  "split_once sep [] = (if sep = [] then Some ([], []) else None)"
| "split_once sep (c # cs) =
     (if prefix sep (c # cs) then Some ([], drop (length sep) (c # cs))
      else (case split_once sep cs of
              None \<Rightarrow> None
            | Some (a, b) \<Rightarrow> Some (c # a, b)))"

section \<open>extract_console_details\<close>

text \<open>
  \<open>re.sub(r'\s*\([^)]*?\)\s*', ' ', s)\<close>. A match at a position takes the whole run of
  white space there, needs an opening parenthesis, runs to the first closing parenthesis
  after it and takes the white space that follows; \<open>paren_match\<close> returns the text after
  the match. Unmatched characters are copied and the scan goes on after each match.
\<close>

definition paren_match :: "pystr \<Rightarrow> pystr option" where
  "paren_match s =
     (case dropWhile is_space s of
        [] \<Rightarrow> None
      | c # r \<Rightarrow>
          if c = 40 \<and> 41 \<in> set r
          then Some (dropWhile is_space (tl (dropWhile (\<lambda>x. x \<noteq> 41) r)))
          else None)"

lemma paren_match_length: "paren_match s = Some r \<Longrightarrow> length r < length s"
proof -
  assume a: "paren_match s = Some r"
  then obtain c q where d: "dropWhile is_space s = c # q" and m: "41 \<in> set q"
    and r: "r = dropWhile is_space (tl (dropWhile (\<lambda>x. x \<noteq> 41) q))"
    by (auto simp: paren_match_def split: list.splits if_splits)
  have "length r \<le> length (tl (dropWhile (\<lambda>x. x \<noteq> 41) q))"
    unfolding r by (rule length_dropWhile_le)
  also have "\<dots> \<le> length q"
    using length_dropWhile_le [of "\<lambda>x. x \<noteq> 41" q] by simp
  also have "\<dots> < length (dropWhile is_space s)"
    by (simp add: d)
  also have "\<dots> \<le> length s"
    by (rule length_dropWhile_le)
  finally show ?thesis .
qed

function sub_parens :: "pystr \<Rightarrow> pystr" where
  "sub_parens [] = []"
| "sub_parens (c # cs) =
     (case paren_match (c # cs) of
        Some r \<Rightarrow> 32 # sub_parens r
      | None \<Rightarrow> c # sub_parens cs)"
  by pat_completeness auto
termination
  by (relation "measure length") (auto dest: paren_match_length)

text \<open>\<open>re.sub(r'\s{2,}', ' ', s)\<close>: every maximal run of two or more white-space
  characters becomes one space; a single white-space character stays as it is.\<close>

function collapse2 :: "pystr \<Rightarrow> pystr" where
  "collapse2 [] = []"
| "collapse2 [c] = [c]"
| "collapse2 (c # d # cs) =
     (if is_space c \<and> is_space d then 32 # collapse2 (dropWhile is_space cs)
      else c # collapse2 (d # cs))"
  by pat_completeness auto
termination
  by (relation "measure length") (auto simp: less_Suc_eq_le le_SucI length_dropWhile_le)

definition clean_console_name :: "pystr \<Rightarrow> pystr" where
  "clean_console_name raw_name = strip (collapse2 (strip (sub_parens raw_name)))"

definition unknown_maker :: pystr where
  "unknown_maker = lit ''Produttore Sconosciuto''"

text \<open>The argument is None when the caller has no name; no step of the body raises on a
  string, so the \<open>except\<close> branch of the source is never taken.\<close>

definition extract_console_details :: "pystr option \<Rightarrow> pystr \<times> pystr" where
  "extract_console_details raw_name =
     (case raw_name of
        None \<Rightarrow> (lit ''Sconosciuto'', lit ''Nome Console Sconosciuto'')
      | Some raw \<Rightarrow>
          (let cleaned_name = clean_console_name raw in
           case split_once (lit '' - '') cleaned_name of
             Some (p0, p1) \<Rightarrow>
               (let maker = strip p0; name = strip p1 in
                (if maker = [] then unknown_maker else maker, name))
           | None \<Rightarrow> (unknown_maker, cleaned_name)))"

subsection \<open>Properties of trimming and splitting\<close>

lemma lstrip_hd: "lstrip s \<noteq> [] \<Longrightarrow> \<not> is_space (hd (lstrip s))"
  unfolding lstrip_def by (rule hd_dropWhile)

lemma rstrip_prefix: "s = rstrip s @ rev (takeWhile is_space (rev s))"
proof -
  have "rstrip s @ rev (takeWhile is_space (rev s)) =
        rev (takeWhile is_space (rev s) @ dropWhile is_space (rev s))"
    unfolding rstrip_def rev_append ..
  also have "\<dots> = s" unfolding takeWhile_dropWhile_id by simp
  finally show ?thesis by simp
qed

lemma rstrip_last: "rstrip s \<noteq> [] \<Longrightarrow> \<not> is_space (last (rstrip s))"
proof -
  assume a: "rstrip s \<noteq> []"
  then have n: "dropWhile is_space (rev s) \<noteq> []" by (simp add: rstrip_def)
  have "last (rstrip s) = hd (dropWhile is_space (rev s))"
    using n by (simp add: rstrip_def last_rev)
  then show ?thesis using hd_dropWhile [OF n] by simp
qed

lemma rstrip_hd: "rstrip s \<noteq> [] \<Longrightarrow> hd (rstrip s) = hd s"
  using rstrip_prefix [of s] by (metis hd_append2)

lemma strip_ends:
  assumes "strip s \<noteq> []"
  shows "\<not> is_space (hd (strip s))" and "\<not> is_space (last (strip s))"
proof -
  have l: "lstrip s \<noteq> []" using assms by (auto simp: strip_def rstrip_def)
  show "\<not> is_space (hd (strip s))"
    using assms lstrip_hd [OF l] rstrip_hd [of "lstrip s"] by (simp add: strip_def)
  show "\<not> is_space (last (strip s))"
    using assms rstrip_last [of "lstrip s"] by (simp add: strip_def)
qed

lemma strip_id:
  assumes "s \<noteq> []" and "\<not> is_space (hd s)" and "\<not> is_space (last s)"
  shows "strip s = s"
proof -
  have 1: "lstrip s = s" using assms by (cases s) (auto simp: lstrip_def)
  have "rev s \<noteq> []" and "\<not> is_space (hd (rev s))" using assms by (auto simp: hd_rev)
  then have "dropWhile is_space (rev s) = rev s" by (cases "rev s") auto
  then show ?thesis by (simp add: strip_def 1 rstrip_def)
qed

definition adj_free :: "pystr \<Rightarrow> bool" where
  "adj_free s \<longleftrightarrow> (\<forall>p x y q. s = p @ x # y # q \<longrightarrow> \<not> (is_space x \<and> is_space y))"

lemma adj_free_Nil: "adj_free []" and adj_free_single: "adj_free [c]"
  by (auto simp: adj_free_def Cons_eq_append_conv)

lemma adj_free_Cons:
  "adj_free (c # s) \<longleftrightarrow> (s \<noteq> [] \<longrightarrow> \<not> (is_space c \<and> is_space (hd s))) \<and> adj_free s"
proof
  assume a: "adj_free (c # s)"
  have "adj_free s" unfolding adj_free_def
  proof (intro allI impI)
    fix p x y q assume "s = p @ x # y # q"
    then have "c # s = (c # p) @ x # y # q" by simp
    with a show "\<not> (is_space x \<and> is_space y)" unfolding adj_free_def by blast
  qed
  moreover have "s \<noteq> [] \<longrightarrow> \<not> (is_space c \<and> is_space (hd s))"
  proof
    assume "s \<noteq> []"
    then have "c # s = [] @ c # hd s # tl s" by simp
    with a show "\<not> (is_space c \<and> is_space (hd s))" unfolding adj_free_def by blast
  qed
  ultimately show "(s \<noteq> [] \<longrightarrow> \<not> (is_space c \<and> is_space (hd s))) \<and> adj_free s" by simp
next
  assume a: "(s \<noteq> [] \<longrightarrow> \<not> (is_space c \<and> is_space (hd s))) \<and> adj_free s"
  show "adj_free (c # s)" unfolding adj_free_def
  proof (intro allI impI)
    fix p x y q assume e: "c # s = p @ x # y # q"
    show "\<not> (is_space x \<and> is_space y)"
    proof (cases p)
      case Nil
      with e have "c = x" and "s = y # q" by auto
      with a show ?thesis by auto
    next
      case (Cons z p')
      with e have "s = p' @ x # y # q" by auto
      with a show ?thesis unfolding adj_free_def by blast
    qed
  qed
qed

lemma adj_free_append: "adj_free (a @ b) \<Longrightarrow> adj_free a \<and> adj_free b"
  unfolding adj_free_def by (metis append.assoc append_Cons)

lemma collapse2_hd: "s \<noteq> [] \<Longrightarrow> \<not> is_space (hd s) \<Longrightarrow> collapse2 s \<noteq> [] \<and> hd (collapse2 s) = hd s"
  by (cases s rule: collapse2.cases) auto

lemma collapse2_adj_free: "adj_free (collapse2 s)"
proof (induction s rule: collapse2.induct)
  case 1 show ?case by (simp add: adj_free_Nil)
next
  case (2 c) show ?case by (simp add: adj_free_single)
next
  case (3 c d cs)
  show ?case
  proof (cases "is_space c \<and> is_space d")
    case True
    let ?r = "dropWhile is_space cs"
    have ih: "adj_free (collapse2 ?r)" using 3(1) True by simp
    have "collapse2 ?r \<noteq> [] \<longrightarrow> \<not> is_space (hd (collapse2 ?r))"
    proof (cases "?r = []")
      case True show ?thesis unfolding True by simp
    next
      case False
      then have "\<not> is_space (hd ?r)" by (rule hd_dropWhile)
      with False collapse2_hd [of ?r] show ?thesis by simp
    qed
    with ih True show ?thesis by (simp add: adj_free_Cons)
  next
    case False
    have ih: "adj_free (collapse2 (d # cs))" using 3(2) False by simp
    have e: "collapse2 (c # d # cs) = c # collapse2 (d # cs)" using False by auto
    have "\<not> (is_space c \<and> is_space (hd (collapse2 (d # cs))))"
    proof (cases "is_space d")
      case True with False show ?thesis by simp
    next
      case F: False
      with collapse2_hd [of "d # cs"] have "hd (collapse2 (d # cs)) = d" by simp
      with F show ?thesis by simp
    qed
    with ih show ?thesis unfolding e adj_free_Cons by blast
  qed
qed

lemma strip_sub: "\<exists>p q. s = p @ strip s @ q"
proof -
  have "s = takeWhile is_space s @ lstrip s" by (simp add: lstrip_def)
  moreover have "lstrip s = strip s @ rev (takeWhile is_space (rev (lstrip s)))"
    using rstrip_prefix [of "lstrip s"] by (simp add: strip_def)
  ultimately show ?thesis by metis
qed

lemma adj_free_strip: "adj_free s \<Longrightarrow> adj_free (strip s)"
  using strip_sub [of s] adj_free_append by metis

lemma clean_adj_free: "adj_free (clean_console_name raw)"
  unfolding clean_console_name_def by (rule adj_free_strip) (rule collapse2_adj_free)

lemma split_once_None: "sep \<noteq> [] \<Longrightarrow> split_once sep s = None \<longleftrightarrow> \<not> sublist sep s"
  by (induction s) (auto simp: sublist_Cons_right split: option.splits)

lemma split_once_first:
  assumes "sep \<noteq> []" and "\<forall>a' b'. a @ sep @ b = a' @ sep @ b' \<longrightarrow> length a \<le> length a'"
  shows "split_once sep (a @ sep @ b) = Some (a, b)"
  using assms
proof (induction a)
  case Nil
  then show ?case by (cases sep) auto
next
  case (Cons x a)
  have np: "\<not> prefix sep (x # a @ sep @ b)"
  proof
    assume "prefix sep (x # a @ sep @ b)"
    then obtain r where "x # a @ sep @ b = [] @ sep @ r" by (auto simp: prefix_def)
    with Cons.prems(2) have "length (x # a) \<le> length ([]::pystr)" by (metis append_Cons)
    then show False by simp
  qed
  have "\<forall>a' b'. a @ sep @ b = a' @ sep @ b' \<longrightarrow> length a \<le> length a'"
  proof (intro allI impI)
    fix a' b' assume "a @ sep @ b = a' @ sep @ b'"
    then have "(x # a) @ sep @ b = (x # a') @ sep @ b'" by simp
    with Cons.prems(2) have "length (x # a) \<le> length (x # a')" by blast
    then show "length a \<le> length a'" by simp
  qed
  with Cons.IH Cons.prems(1) have "split_once sep (a @ sep @ b) = Some (a, b)" by simp
  with np show ?case by simp
qed

lemma split_once_Some: "split_once sep s = Some (a, b) \<Longrightarrow> s = a @ sep @ b"
  by (induction s arbitrary: a) (auto simp: prefix_def split: if_splits option.splits)


lemma is_space_32: "is_space 32" and not_space_45: "\<not> is_space 45"
  by (simp_all add: is_space_def)

lemma sep_parts:
  assumes c: "clean_console_name raw = a @ lit '' - '' @ b"
  shows "a \<noteq> []" and "strip a = a" and "strip b = b"
proof -
  let ?c = "clean_console_name raw"
  have c': "?c = a @ 32 # 45 # 32 # b" using c by simp
  have ne: "strip (collapse2 (strip (sub_parens raw))) \<noteq> []"
    using c' by (simp add: clean_console_name_def)
  have h: "\<not> is_space (hd ?c)" and l: "\<not> is_space (last ?c)"
    using strip_ends [OF ne] by (simp_all add: clean_console_name_def)
  have af: "adj_free ?c" by (rule clean_adj_free)
  show a: "a \<noteq> []"
  proof
    assume "a = []"
    with c' have "hd ?c = 32" by simp
    with h is_space_32 show False by simp
  qed
  have ha: "\<not> is_space (hd a)" using h a c' by simp
  have "?c = butlast a @ last a # 32 # (45 # 32 # b)" using a c' by simp
  with af have "\<not> (is_space (last a) \<and> is_space 32)" unfolding adj_free_def by blast
  then have la: "\<not> is_space (last a)" using is_space_32 by simp
  show "strip a = a" using a ha la by (rule strip_id)
  have b: "b \<noteq> []"
  proof
    assume "b = []"
    with c' have "last ?c = 32" by simp
    with l is_space_32 show False by simp
  qed
  have "?c = (a @ [32, 45]) @ 32 # hd b # tl b" using b c' by simp
  with af have "\<not> (is_space 32 \<and> is_space (hd b))" unfolding adj_free_def by blast
  then have hb: "\<not> is_space (hd b)" using is_space_32 by simp
  have lb: "\<not> is_space (last b)" using l b c' by simp
  show "strip b = b" using b hb lb by (rule strip_id)
qed

text \<open>
  Claim C4. The raw name is cleaned first (parenthesised qualifiers replaced, white space
  collapsed and trimmed). When the cleaned name does not contain \<open>" - "\<close>, the maker is
  the sentinel \<open>unknown_maker\<close> and the platform name is the whole cleaned name. When it
  does, the maker is the text before the leftmost separator and the platform name the text
  after it: trimming the two parts changes nothing, and the maker is never empty.
  \<open>"Nintendo - Game Boy"\<close> gives \<open>("Nintendo", "Game Boy")\<close> and \<open>"Game Boy (Color)"\<close>
  gives the sentinel and \<open>"Game Boy"\<close>.
\<close>

theorem extract_console_details_split:
  "(\<not> sublist (lit '' - '') (clean_console_name raw) \<longrightarrow>
      extract_console_details (Some raw) = (unknown_maker, clean_console_name raw)) \<and>
   (\<forall>a b. clean_console_name raw = a @ lit '' - '' @ b \<and>
          (\<forall>a' b'. clean_console_name raw = a' @ lit '' - '' @ b' \<longrightarrow> length a \<le> length a') \<longrightarrow>
      extract_console_details (Some raw) = (a, b)) \<and>
   extract_console_details (Some (lit ''Nintendo - Game Boy'')) = (lit ''Nintendo'', lit ''Game Boy'') \<and>
   extract_console_details (Some (lit ''Game Boy (Color)'')) = (unknown_maker, lit ''Game Boy'')"
proof (intro conjI allI impI)
  assume "\<not> sublist (lit '' - '') (clean_console_name raw)"
  then have "split_once (lit '' - '') (clean_console_name raw) = None"
    by (subst split_once_None) simp_all
  then show "extract_console_details (Some raw) = (unknown_maker, clean_console_name raw)"
    by (simp add: extract_console_details_def)
next
  fix a b
  assume h: "clean_console_name raw = a @ lit '' - '' @ b \<and>
    (\<forall>a' b'. clean_console_name raw = a' @ lit '' - '' @ b' \<longrightarrow> length a \<le> length a')"
  then have c: "clean_console_name raw = a @ lit '' - '' @ b" by simp
  have "split_once (lit '' - '') (a @ lit '' - '' @ b) = Some (a, b)"
    using h by (intro split_once_first) (simp, metis)
  then have "split_once (lit '' - '') (clean_console_name raw) = Some (a, b)"
    using c by simp
  then show "extract_console_details (Some raw) = (a, b)"
    using sep_parts [OF c] by (simp add: extract_console_details_def Let_def)
next
  show "extract_console_details (Some (lit ''Nintendo - Game Boy'')) = (lit ''Nintendo'', lit ''Game Boy'')"
    by (simp add: extract_console_details_def clean_console_name_def strip_def lstrip_def
        rstrip_def is_space_def paren_match_def)
next
  show "extract_console_details (Some (lit ''Game Boy (Color)'')) = (unknown_maker, lit ''Game Boy'')"
    by (simp add: extract_console_details_def clean_console_name_def strip_def lstrip_def
        rstrip_def is_space_def paren_match_def unknown_maker_def)
qed

theorem extract_console_details_split_witness:
  "clean_console_name (lit ''Sega - Mega Drive (EU)'') = lit ''Sega'' @ lit '' - '' @ lit ''Mega Drive'' \<and>
   extract_console_details (Some (lit ''Sega - Mega Drive (EU)'')) = (lit ''Sega'', lit ''Mega Drive'') \<and>
   \<not> sublist (lit '' - '') (clean_console_name (lit ''Atari-2600 (v1)'')) \<and>
   extract_console_details (Some (lit ''Atari-2600 (v1)'')) = (unknown_maker, lit ''Atari-2600'')"
proof -
  let ?r = "lit ''Sega - Mega Drive (EU)''"
  have c: "clean_console_name ?r = lit ''Sega'' @ lit '' - '' @ lit ''Mega Drive''"
    by (simp add: clean_console_name_def strip_def lstrip_def rstrip_def is_space_def paren_match_def)
  have m: "\<forall>a' b'. clean_console_name ?r = a' @ lit '' - '' @ b' \<longrightarrow> length (lit ''Sega'') \<le> length a'"
  proof (intro allI impI)
    fix a' b' assume e: "clean_console_name ?r = a' @ lit '' - '' @ b'"
    show "length (lit ''Sega'') \<le> length a'"
    proof (rule ccontr)
      assume "\<not> length (lit ''Sega'') \<le> length a'"
      then have "length a' < 4" by simp
      then consider "length a' = 0" | "length a' = 1" | "length a' = 2" | "length a' = 3" by linarith
      then show False
      proof cases
        case 1 with e c show ?thesis by simp
      next
        case 2 then obtain x where "a' = [x]" by (cases a') auto
        with e c show ?thesis by simp
      next
        case 3 then obtain x y where "a' = [x, y]" by (cases a'; cases "tl a'") auto
        with e c show ?thesis by simp
      next
        case 4 then obtain x y z where "a' = [x, y, z]"
          by (cases a'; cases "tl a'"; cases "tl (tl a')") auto
        with e c show ?thesis by simp
      qed
    qed
  qed
  let ?q = "lit ''Atari-2600 (v1)''"
  have c2: "clean_console_name ?q = lit ''Atari-2600''"
    by (simp add: clean_console_name_def strip_def lstrip_def rstrip_def is_space_def paren_match_def)
  have n: "\<not> sublist (lit '' - '') (clean_console_name ?q)"
    unfolding c2 by (simp add: sublist_code)
  from extract_console_details_split [of ?r] c m
  have 1: "extract_console_details (Some ?r) = (lit ''Sega'', lit ''Mega Drive'')" by blast
  from extract_console_details_split [of ?q] n c2
  have 2: "extract_console_details (Some ?q) = (unknown_maker, lit ''Atari-2600'')" by simp
  from c 1 n 2 show ?thesis by blast
qed

section \<open>XML elements\<close>

text \<open>
  An element of \<open>lxml.etree\<close> / \<open>xml.etree.ElementTree\<close>: tag, attributes, text,
  children and tail. Parsing and serialisation belong to the XML library and are
  parameters of the functions that call them.
\<close>

datatype element =
  Element (tag: pystr) (attrib: "(pystr \<times> pystr) list") (etext: "pystr option")
          (children: "element list") (etail: "pystr option")

definition set_etext :: "pystr option \<Rightarrow> element \<Rightarrow> element" where
  "set_etext t e = Element (tag e) (attrib e) t (children e) (etail e)"

definition set_children :: "element list \<Rightarrow> element \<Rightarrow> element" where
  "set_children cs e = Element (tag e) (attrib e) (etext e) cs (etail e)"

text \<open>\<open>elem.get(key)\<close>\<close>

definition elem_get :: "element \<Rightarrow> pystr \<Rightarrow> pystr option" where
  "elem_get e key = map_of (attrib e) key"

text \<open>\<open>elem.find(t)\<close>: the first child with that tag, and its position.\<close>

fun index_of :: "('a \<Rightarrow> bool) \<Rightarrow> 'a list \<Rightarrow> nat option" where
  "index_of P [] = None"
| "index_of P (x # xs) = (if P x then Some 0 else map_option Suc (index_of P xs))"

definition find_child :: "pystr \<Rightarrow> element \<Rightarrow> element option" where
  "find_child t e = find (\<lambda>c. tag c = t) (children e)"

text \<open>\<open>root.findall('.//game')\<close>: every descendant with the tag, in document order.\<close>

fun descendants :: "element \<Rightarrow> element list" where
  "descendants (Element t a x cs y) = concat (map (\<lambda>c. c # descendants c) cs)"

definition findall_desc :: "pystr \<Rightarrow> element \<Rightarrow> element list" where
  "findall_desc t e = filter (\<lambda>c. tag c = t) (descendants e)"

text \<open>\<open>sep.join(parts)\<close>\<close>

fun join :: "pystr \<Rightarrow> pystr list \<Rightarrow> pystr" where
  "join sep [] = []"
| "join sep [x] = x"
| "join sep (x # y # ys) = x @ sep @ join sep (y # ys)"

section \<open>parse_and_compress_dat\<close>

text \<open>\<open>html.escape(value, quote=True)\<close>\<close>

definition escape_char :: "nat \<Rightarrow> pystr" where
  "escape_char c =
     (if c = 38 then lit ''&amp;''
      else if c = 60 then lit ''&lt;''
      else if c = 62 then lit ''&gt;''
      else if c = 34 then lit ''&quot;''
      else if c = 39 then lit ''&#x27;''
      else [c])"

definition escape_xml_attribute :: "pystr option \<Rightarrow> pystr" where
  "escape_xml_attribute v = (case v of None \<Rightarrow> [] | Some s \<Rightarrow> concat (map escape_char s))"

text \<open>
  The loop over the game elements. \<open>tostring\<close> is
  \<open>ET.tostring(elem, encoding='unicode', method='xml')\<close>. The state is the dictionary
  \<open>original_games_data\<close> and the list \<open>compressed_game_tags\<close>; an element whose name
  attribute is missing or empty is skipped.
\<close>

fun games_loop ::
  "(element \<Rightarrow> pystr) \<Rightarrow> element list \<Rightarrow> (pystr \<rightharpoonup> pystr) \<times> pystr list \<Rightarrow>
   (pystr \<rightharpoonup> pystr) \<times> pystr list" where
  "games_loop tostring [] st = st"
| "games_loop tostring (game_elem # rest) (original_games_data, compressed_game_tags) =
     (case elem_get game_elem (lit ''name'') of
        None \<Rightarrow> games_loop tostring rest (original_games_data, compressed_game_tags)
      | Some game_name \<Rightarrow>
          if game_name = [] then games_loop tostring rest (original_games_data, compressed_game_tags)
          else games_loop tostring rest
                 (original_games_data(game_name \<mapsto> tostring game_elem),
                  compressed_game_tags @
                    [lit ''<game name='' @ [34] @ escape_xml_attribute (Some game_name) @ [34] @ lit ''/>'']))"

text \<open>What \<open>ET.parse\<close> did with the file: a \<open>ParseError\<close>, another exception (also a
  missing root), or a root element.\<close>

datatype parse_result = XmlParseError | XmlOtherError | Parsed element

record compressed_dat =
  console_maker :: pystr
  console_name :: pystr
  original_header_xml :: "pystr option"
  games_data :: "(pystr \<rightharpoonup> pystr) option"
  compressed_dat_content :: "pystr option"
  game_count_original :: nat

definition parse_failure :: "pystr \<Rightarrow> compressed_dat" where
  "parse_failure what =
     \<lparr>console_maker = lit ''Sconosciuto'', console_name = what, original_header_xml = None,
      games_data = None, compressed_dat_content = None, game_count_original = 0\<rparr>"

definition missing_header_xml :: pystr where
  "missing_header_xml =
     lit ''<header><name>Header Mancante</name><description>Header originale non trovato o illeggibile.</description></header>''"

text \<open>The maker and name read from the header: the defaults stay when the header or its
  name text is missing.\<close>

definition header_details :: "element \<Rightarrow> pystr \<times> pystr" where
  "header_details root =
     (case find_child (lit ''header'') root of
        None \<Rightarrow> (lit ''Sconosciuto'', lit ''Nome Console Sconosciuto'')
      | Some header_element \<Rightarrow>
          (case find_child (lit ''name'') header_element of
             None \<Rightarrow> (lit ''Sconosciuto'', lit ''Nome Console Sconosciuto'')
           | Some name_elem \<Rightarrow>
               (case etext name_elem of
                  None \<Rightarrow> (lit ''Sconosciuto'', lit ''Nome Console Sconosciuto'')
                | Some console_name_raw \<Rightarrow> extract_console_details (Some console_name_raw))))"

text \<open>\<open>stem\<close> is \<open>Path(filepath).stem\<close>, \<open>parsed\<close> the outcome of \<open>ET.parse\<close>.\<close>

definition parse_and_compress_dat ::
  "(element \<Rightarrow> pystr) \<Rightarrow> pystr \<Rightarrow> parse_result \<Rightarrow> compressed_dat" where
  "parse_and_compress_dat tostring stem parsed =
     (case parsed of
        XmlParseError \<Rightarrow> parse_failure (lit ''Errore Parsing XML'')
      | XmlOtherError \<Rightarrow> parse_failure (lit ''Errore Parsing Generico'')
      | Parsed root \<Rightarrow>
          (let header_xml = (case find_child (lit ''header'') root of
                               None \<Rightarrow> missing_header_xml
                             | Some header_element \<Rightarrow> tostring header_element);
               (maker0, name0) = header_details root;
               (maker, name) =
                 (if name0 = lit ''Nome Console Sconosciuto'' \<and> maker0 = lit ''Sconosciuto''
                  then extract_console_details (Some stem) else (maker0, name0));
               game_elements = findall_desc (lit ''game'') root;
               (store, tags) = games_loop tostring game_elements (Map.empty, []);
               content = lit ''<?xml version='' @ [39] @ lit ''1.0'' @ [39] @ lit '' encoding='' @ [39]
                   @ lit ''utf-8'' @ [39] @ lit ''?>'' @ [10] @ lit ''<datafile>'' @ [10]
                   @ strip header_xml @ [10] @ join [10] tags @ [10] @ lit ''</datafile>''
           in \<lparr>console_maker = maker, console_name = name, original_header_xml = Some header_xml,
               games_data = Some store, compressed_dat_content = Some content,
               game_count_original = length game_elements\<rparr>))"

section \<open>reconstruct_filtered_dat\<close>

subsection \<open>The header\<close>

definition SCRIPT_VERSION :: pystr where
  "SCRIPT_VERSION = lit ''1.0.15''"

definition marker :: pystr where
  "marker = lit ''(GeminiAKNF)''"

text \<open>
  The description step. The text of the first \<open>description\<close> child gets the marker
  appended unless its trimmed text already contains it; a header without that child gets a
  new last child whose text is the marker.
\<close>

definition set_description :: "element \<Rightarrow> element" where
  "set_description header_element =
     (case index_of (\<lambda>c. tag c = lit ''description'') (children header_element) of
        Some i \<Rightarrow>
          (let desc_tag = children header_element ! i;
               original_desc = (case etext desc_tag of
                                  None \<Rightarrow> []
                                | Some t \<Rightarrow> if t = [] then [] else strip t)
           in if \<not> sublist marker original_desc
              then set_children
                     ((children header_element)
                        [i := set_etext (Some (strip (original_desc @ lit '' (GeminiAKNF)''))) desc_tag])
                     header_element
              else header_element)
      | None \<Rightarrow>
          set_children
            (children header_element @ [Element (lit ''description'') [] (Some marker) [] None])
            header_element)"

text \<open>\<open>header_element.remove(existing_aknf_tag)\<close> for the first \<open>geminiaknf\<close> child.\<close>

definition remove_existing :: "element \<Rightarrow> element" where
  "remove_existing header_element =
     (case index_of (\<lambda>c. tag c = lit ''geminiaknf'') (children header_element) of
        None \<Rightarrow> header_element
      | Some i \<Rightarrow>
          set_children (take i (children header_element) @ drop (Suc i) (children header_element))
            header_element)"

definition aknf_tag :: element where
  "aknf_tag =
     Element (lit ''geminiaknf'') [] (Some (lit ''Created by Gemini AKNF ver. '' @ SCRIPT_VERSION)) [] None"

definition insert_index :: "element \<Rightarrow> nat" where
  "insert_index header_element =
     (case index_of (\<lambda>c. tag c = lit ''retool'') (children header_element) of
        Some i \<Rightarrow> i + 1
      | None \<Rightarrow>
          (case index_of (\<lambda>c. tag c = lit ''clrmamepro'') (children header_element) of
             Some j \<Rightarrow> j
           | None \<Rightarrow> length (children header_element)))"

text \<open>\<open>header_element.insert(insert_index, aknf_tag)\<close>\<close>

definition insert_aknf :: "element \<Rightarrow> element" where
  "insert_aknf header_element =
     (let i = insert_index header_element
      in set_children (take i (children header_element) @ aknf_tag # drop i (children header_element))
           header_element)"

definition mutate_header :: "element \<Rightarrow> element" where
  "mutate_header header_element = insert_aknf (remove_existing (set_description header_element))"

subsection \<open>The document\<close>

text \<open>
  \<open>re.sub(r"^\s*<\?xml.*?\?>", "", s)\<close>: one match at most, at the start of the text.
  \<open>decl_end\<close> looks for the first \<open>?>\<close> that is reached without crossing a newline,
  which the dot does not match, and returns the text after it.
\<close>

fun decl_end :: "pystr \<Rightarrow> pystr option" where
  "decl_end [] = None"
| "decl_end (c # cs) =
     (if prefix (lit ''?>'') (c # cs) then Some (drop 2 (c # cs))
      else if c = 10 then None
      else decl_end cs)"

definition strip_xml_decl :: "pystr \<Rightarrow> pystr" where
  "strip_xml_decl s =
     (let r = dropWhile is_space s
      in if prefix (lit ''<?xml'') r
         then (case decl_end (drop 5 r) of Some rest \<Rightarrow> rest | None \<Rightarrow> s)
         else s)"

text \<open>What the functions print, the files they write and the number of requests sent to
  the Gemini API so far.\<close>

datatype event =
    NoResponse
  | AiParseFailed pystr
  | SavedFailedResponse
  | HeaderFallback
  | UniqueRequested nat
  | MissingGame pystr
  | Completed nat nat
  | MissingHint
  | PrettyPrintFailed
  | ApiFailed
  | ApiNoText "pystr option"
  | ApiReceived
  | InvalidStart pystr
  | SavedInvalidResponse
  | CannotSaveInvalidResponse

record world =
  files :: "pystr \<rightharpoonup> pystr"
  console :: "event list"
  api_calls :: nat

definition say :: "event list \<Rightarrow> world \<Rightarrow> world" where
  "say es w = w\<lparr>console := console w @ es\<rparr>"

text \<open>
  The XML library and the file system, as the function meets them:
  \<open>fromstring\<close> is \<open>ET.fromstring\<close> with the recovering parser, None when it raises or
  yields no root; \<open>tostring\<close> is the plain serialisation, \<open>tostring_pretty\<close> the one of
  lxml with \<open>pretty_print=True\<close>, None when it raises; \<open>pretty_document\<close> is the final
  re-parse and pretty-print of the whole document, None when it raises; \<open>writable\<close> tells
  whether a file can be written.
\<close>

record backend =
  LXML_AVAILABLE :: bool
  fromstring :: "pystr \<Rightarrow> element option"
  tostring :: "element \<Rightarrow> pystr"
  tostring_pretty :: "element \<Rightarrow> pystr option"
  pretty_document :: "pystr \<Rightarrow> pystr option"
  writable :: "pystr \<Rightarrow> bool"

text \<open>The names of the \<open>game\<close> elements of the response, in its order, without the
  missing and the empty ones.\<close>

definition kept_game_names :: "element \<Rightarrow> pystr list" where
  "kept_game_names ai_root =
     concat (map (\<lambda>game_elem. case elem_get game_elem (lit ''name'') of
                                 None \<Rightarrow> []
                               | Some game_name \<Rightarrow> if game_name = [] then [] else [game_name])
                 (findall_desc (lit ''game'') ai_root))"

text \<open>The header of the document and what is printed for it: the mutated header, or the
  original one when parsing or serialising raises.\<close>

definition modified_header :: "backend \<Rightarrow> pystr \<Rightarrow> pystr \<times> event list" where
  "modified_header b original_header =
     (case fromstring b original_header of
        None \<Rightarrow> (original_header, [HeaderFallback])
      | Some header_element \<Rightarrow>
          (case (if LXML_AVAILABLE b then tostring_pretty b (mutate_header header_element)
                 else Some (tostring b (mutate_header header_element))) of
             None \<Rightarrow> (original_header, [HeaderFallback])
           | Some modified_header_xml \<Rightarrow> (modified_header_xml, [])))"

text \<open>The loop over the sorted names: the parts of the document so far, the two counters
  and the warnings.\<close>

fun resolve_loop ::
  "(pystr \<rightharpoonup> pystr) \<Rightarrow> pystr list \<Rightarrow> pystr list \<times> nat \<times> nat \<times> event list \<Rightarrow>
   pystr list \<times> nat \<times> nat \<times> event list" where
  "resolve_loop original_games_data [] st = st"
| "resolve_loop original_games_data (name # names) (final_dat_parts, found_count, missing_count, out) =
     (case original_games_data name of
        None \<Rightarrow>
          resolve_loop original_games_data names
            (final_dat_parts, found_count, missing_count + 1, out @ [MissingGame name])
      | Some original_game_xml \<Rightarrow>
          if original_game_xml = []
          then resolve_loop original_games_data names
                 (final_dat_parts, found_count, missing_count + 1, out @ [MissingGame name])
          else resolve_loop original_games_data names
                 (final_dat_parts @ [strip (strip_xml_decl original_game_xml)],
                  found_count + 1, missing_count, out))"

definition xml_declaration :: pystr where
  "xml_declaration =
     lit ''<?xml version='' @ [39] @ lit ''1.0'' @ [39] @ lit '' encoding='' @ [39] @ lit ''utf-8''
       @ [39] @ lit ''?>''"

definition unique_kept_names :: "element \<Rightarrow> pystr list" where
  "unique_kept_names ai_root = sorted_list_of_set (set (kept_game_names ai_root))"

text \<open>The state of the loop at its end, for a parsed response.\<close>

definition resolved ::
  "backend \<Rightarrow> element \<Rightarrow> pystr \<Rightarrow> (pystr \<rightharpoonup> pystr) \<Rightarrow> pystr list \<times> nat \<times> nat \<times> event list" where
  "resolved b ai_root original_header original_games_data =
     resolve_loop original_games_data (unique_kept_names ai_root)
       ([xml_declaration, lit ''<'' @ tag ai_root @ lit ''>'',
         strip (fst (modified_header b original_header))], 0, 0, [])"

definition final_xml_string ::
  "backend \<Rightarrow> element \<Rightarrow> pystr \<Rightarrow> (pystr \<rightharpoonup> pystr) \<Rightarrow> pystr" where
  "final_xml_string b ai_root original_header original_games_data =
     join [10] (fst (resolved b ai_root original_header original_games_data)
                  @ [lit ''</'' @ tag ai_root @ lit ''>''])"

definition reconstruct_filtered_dat ::
  "backend \<Rightarrow> pystr \<Rightarrow> pystr \<Rightarrow> (pystr \<rightharpoonup> pystr) \<Rightarrow> world \<Rightarrow> pystr option \<times> world" where
  "reconstruct_filtered_dat b ai_response_xml original_header original_games_data w =
     (if ai_response_xml = [] then (None, say [NoResponse] w)
      else
        (case fromstring b (strip (strip_xml_decl ai_response_xml)) of
           None \<Rightarrow>
             (let w1 = say [AiParseFailed (take 1000 ai_response_xml)] w
              in (None,
                  if writable b (lit ''failed_ai_response_games.xml'')
                  then say [SavedFailedResponse]
                         (w1\<lparr>files := (files w1)(lit ''failed_ai_response_games.xml'' \<mapsto> ai_response_xml)\<rparr>)
                  else w1))
         | Some ai_root \<Rightarrow>
             (let (final_dat_parts, found_count, missing_count, warnings) =
                    resolved b ai_root original_header original_games_data;
                  final = final_xml_string b ai_root original_header original_games_data;
                  w1 = say (snd (modified_header b original_header)
                            @ [UniqueRequested (length (unique_kept_names ai_root))]
                            @ warnings
                            @ [Completed found_count missing_count]
                            @ (if missing_count > 0 then [MissingHint] else [])) w
              in if LXML_AVAILABLE b
                 then (case pretty_document b final of
                         Some pretty \<Rightarrow> (Some pretty, w1)
                       | None \<Rightarrow> (Some final, say [PrettyPrintFailed] w1))
                 else (Some final, w1))))"

subsection \<open>The catalogue store\<close>

lemma find_append_case:
  "find P (xs @ ys) = (case find P xs of None \<Rightarrow> find P ys | Some x \<Rightarrow> Some x)"
  by (induction xs) auto

text \<open>The last game element of a list that carries a given name.\<close>

definition last_named :: "pystr \<Rightarrow> element list \<Rightarrow> element option" where
  "last_named n gs = find (\<lambda>g. elem_get g (lit ''name'') = Some n) (rev gs)"

lemma last_named_Cons:
  "last_named n (g # gs) =
     (case last_named n gs of
        Some x \<Rightarrow> Some x
      | None \<Rightarrow> if elem_get g (lit ''name'') = Some n then Some g else None)"
  by (simp add: last_named_def find_append_case split: option.splits)

lemma games_loop_store:
  "n \<noteq> [] \<Longrightarrow>
   fst (games_loop ser gs (d, t)) n =
     (case last_named n gs of Some g \<Rightarrow> Some (ser g) | None \<Rightarrow> d n)"
proof (induction gs arbitrary: d t)
  case Nil
  then show ?case by (simp add: last_named_def)
next
  case (Cons g gs)
  show ?case
  proof (cases "elem_get g (lit ''name'')")
    case None
    then show ?thesis using Cons by (simp add: last_named_Cons split: option.splits)
  next
    case (Some m)
    show ?thesis
    proof (cases "m = []")
      case True
      then show ?thesis using Some Cons by (auto simp: last_named_Cons split: option.splits)
    next
      case False
      then show ?thesis using Some Cons by (auto simp: last_named_Cons split: option.splits)
    qed
  qed
qed

lemma games_loop_empty_key: "fst (games_loop ser gs (d, t)) [] = d []"
proof (induction gs arbitrary: d t)
  case Nil
  then show ?case by simp
next
  case (Cons g gs)
  then show ?case by (cases "elem_get g (lit ''name'')") auto
qed

lemma last_named_after:
  assumes "elem_get g2 (lit ''name'') = Some n"
    and "\<forall>g\<in>set after. elem_get g (lit ''name'') \<noteq> Some n"
  shows "last_named n (before @ g2 # after) = Some g2"
proof -
  have "find (\<lambda>g. elem_get g (lit ''name'') = Some n) (rev after) = None"
    using assms(2) by (simp add: find_None_iff)
  then show ?thesis using assms(1) by (simp add: last_named_def find_append_case)
qed

text \<open>
  Claim C7. The name is the only key of the store. When two game elements of the input
  carry the same name, the store built by \<open>parse_and_compress_dat\<close> maps that name to the
  serialisation of the later one (here \<open>g2\<close>, the last element with that name), and the
  function returns its store as for any other input: nothing is raised or reported.
\<close>

theorem later_record_overwrites:
  "elem_get g1 (lit ''name'') = Some n \<and> elem_get g2 (lit ''name'') = Some n \<and> n \<noteq> [] \<and>
   (\<forall>g\<in>set after. elem_get g (lit ''name'') \<noteq> Some n) \<and>
   findall_desc (lit ''game'') root = before @ g1 # mid @ g2 # after \<longrightarrow>
   (\<exists>store. games_data (parse_and_compress_dat ser stem (Parsed root)) = Some store \<and>
            store n = Some (ser g2))"
proof
  assume a: "elem_get g1 (lit ''name'') = Some n \<and> elem_get g2 (lit ''name'') = Some n \<and> n \<noteq> [] \<and>
   (\<forall>g\<in>set after. elem_get g (lit ''name'') \<noteq> Some n) \<and>
   findall_desc (lit ''game'') root = before @ g1 # mid @ g2 # after"
  let ?gs = "findall_desc (lit ''game'') root"
  have gs: "?gs = (before @ g1 # mid) @ g2 # after" using a by simp
  have l: "last_named n ?gs = Some g2"
    unfolding gs using a by (intro last_named_after) auto
  have "fst (games_loop ser ?gs (Map.empty, [])) n = Some (ser g2)"
    using a l by (simp add: games_loop_store)
  moreover have "games_data (parse_and_compress_dat ser stem (Parsed root)) =
      Some (fst (games_loop ser ?gs (Map.empty, [])))"
    by (simp add: parse_and_compress_dat_def Let_def split: prod.splits)
  ultimately show "\<exists>store. games_data (parse_and_compress_dat ser stem (Parsed root)) = Some store \<and>
            store n = Some (ser g2)" by simp
qed

definition game_a1 :: element where
  "game_a1 = Element (lit ''game'') [(lit ''name'', lit ''A'')] (Some (lit ''first'')) [] None"

definition game_a2 :: element where
  "game_a2 = Element (lit ''game'') [(lit ''name'', lit ''A'')] (Some (lit ''second'')) [] None"

definition game_b :: element where
  "game_b = Element (lit ''game'') [(lit ''name'', lit ''B'')] None [] None"

text \<open>A small serialiser for the examples: the tag, the attribute values, the text.\<close>

definition show_element :: "element \<Rightarrow> pystr" where
  "show_element e =
     lit ''<'' @ tag e @ concat (map (\<lambda>(k, v). lit '' '' @ k @ lit ''='' @ [34] @ v @ [34]) (attrib e))
       @ lit ''>'' @ (case etext e of None \<Rightarrow> [] | Some t \<Rightarrow> t) @ lit ''</'' @ tag e @ lit ''>''
       @ (case etail e of None \<Rightarrow> [] | Some t \<Rightarrow> t)"

definition dup_root :: element where
  "dup_root = Element (lit ''datafile'') [] None [game_a1, game_b, game_a2] None"

theorem later_record_overwrites_witness:
  "\<exists>store. games_data (parse_and_compress_dat show_element (lit ''x'') (Parsed dup_root)) = Some store \<and>
           store (lit ''A'') = Some (show_element game_a2)"
proof -
  have f: "findall_desc (lit ''game'') dup_root = [] @ game_a1 # [game_b] @ game_a2 # []"
    by (simp add: findall_desc_def dup_root_def game_a1_def game_a2_def game_b_def)
  have 1: "elem_get game_a1 (lit ''name'') = Some (lit ''A'')"
    and 2: "elem_get game_a2 (lit ''name'') = Some (lit ''A'')"
    by (simp_all add: elem_get_def game_a1_def game_a2_def)
  from later_record_overwrites [of game_a1 "lit ''A''" game_a2 "[]" dup_root "[]" "[game_b]"
      show_element "lit ''x''"] f 1 2
  show ?thesis by simp
qed

subsection \<open>The loop over the selected names\<close>

text \<open>A name is found when the store has a non-empty fragment for it; its part of the
  document is that fragment without a leading XML declaration and trimmed.\<close>

definition found_in :: "(pystr \<rightharpoonup> pystr) \<Rightarrow> pystr \<Rightarrow> bool" where
  "found_in d n = (case d n of None \<Rightarrow> False | Some x \<Rightarrow> x \<noteq> [])"

definition fragment_of :: "(pystr \<rightharpoonup> pystr) \<Rightarrow> pystr \<Rightarrow> pystr" where
  "fragment_of d n = (case d n of None \<Rightarrow> [] | Some x \<Rightarrow> strip (strip_xml_decl x))"

text \<open>The parts of the document after the declaration, the opening tag and the header.\<close>

definition entry_fragments ::
  "backend \<Rightarrow> element \<Rightarrow> pystr \<Rightarrow> (pystr \<rightharpoonup> pystr) \<Rightarrow> pystr list" where
  "entry_fragments b ai_root original_header d = drop 3 (fst (resolved b ai_root original_header d))"

lemma resolve_loop_eq:
  "resolve_loop d names (parts, f, m, out) =
     (parts @ map (fragment_of d) (filter (found_in d) names),
      f + length (filter (found_in d) names),
      m + length (filter (\<lambda>n. \<not> found_in d n) names),
      out @ map MissingGame (filter (\<lambda>n. \<not> found_in d n) names))"
proof (induction names arbitrary: parts f m out)
  case Nil
  show ?case by simp
next
  case (Cons n names)
  show ?case
  proof (cases "d n")
    case None
    then show ?thesis by (simp add: Cons found_in_def)
  next
    case (Some x)
    then show ?thesis by (cases "x = []") (simp_all add: Cons found_in_def fragment_of_def)
  qed
qed

lemma resolved_eq:
  "resolved b ai_root hdr d =
     ([xml_declaration, lit ''<'' @ tag ai_root @ lit ''>'', strip (fst (modified_header b hdr))]
        @ map (fragment_of d) (filter (found_in d) (unique_kept_names ai_root)),
      length (filter (found_in d) (unique_kept_names ai_root)),
      length (filter (\<lambda>n. \<not> found_in d n) (unique_kept_names ai_root)),
      map MissingGame (filter (\<lambda>n. \<not> found_in d n) (unique_kept_names ai_root)))"
  unfolding resolved_def resolve_loop_eq by simp

lemma entry_fragments_eq:
  "entry_fragments b ai_root hdr d =
     map (fragment_of d) (filter (found_in d) (unique_kept_names ai_root))"
  by (simp add: entry_fragments_def resolved_eq)

lemma final_xml_string_eq:
  "final_xml_string b ai_root hdr d =
     join [10] ([xml_declaration, lit ''<'' @ tag ai_root @ lit ''>'', strip (fst (modified_header b hdr))]
                  @ entry_fragments b ai_root hdr d @ [lit ''</'' @ tag ai_root @ lit ''>''])"
  by (simp add: final_xml_string_def resolved_eq entry_fragments_eq)

lemma reconstruct_parsed:
  assumes "ai \<noteq> []" and "fromstring b (strip (strip_xml_decl ai)) = Some ai_root"
  shows "fst (reconstruct_filtered_dat b ai hdr d w) =
           Some (if LXML_AVAILABLE b
                 then (case pretty_document b (final_xml_string b ai_root hdr d) of
                         Some pretty \<Rightarrow> pretty
                       | None \<Rightarrow> final_xml_string b ai_root hdr d)
                 else final_xml_string b ai_root hdr d)"
  using assms
  by (simp add: reconstruct_filtered_dat_def Let_def split: prod.splits option.splits)

lemma reconstruct_console:
  assumes "ai \<noteq> []" and "fromstring b (strip (strip_xml_decl ai)) = Some ai_root"
  shows "\<exists>rest. console (snd (reconstruct_filtered_dat b ai hdr d w)) =
           console w @ snd (modified_header b hdr)
             @ [UniqueRequested (length (unique_kept_names ai_root))]
             @ map MissingGame (filter (\<lambda>n. \<not> found_in d n) (unique_kept_names ai_root))
             @ [Completed (length (filter (found_in d) (unique_kept_names ai_root)))
                          (length (filter (\<lambda>n. \<not> found_in d n) (unique_kept_names ai_root)))]
             @ rest"
  using assms
  by (simp add: reconstruct_filtered_dat_def Let_def resolved_eq say_def split: option.splits)

text \<open>What a run on a parsed response leaves on the console and in the files.\<close>

lemma reconstruct_world:
  assumes "ai \<noteq> []" and "fromstring b (strip (strip_xml_decl ai)) = Some ai_root"
  shows "console (snd (reconstruct_filtered_dat b ai hdr d w)) =
           console w @ snd (modified_header b hdr)
             @ [UniqueRequested (length (unique_kept_names ai_root))]
             @ map MissingGame (filter (\<lambda>n. \<not> found_in d n) (unique_kept_names ai_root))
             @ [Completed (length (filter (found_in d) (unique_kept_names ai_root)))
                          (length (filter (\<lambda>n. \<not> found_in d n) (unique_kept_names ai_root)))]
             @ (if 0 < length (filter (\<lambda>n. \<not> found_in d n) (unique_kept_names ai_root))
                then [MissingHint] else [])
             @ (if LXML_AVAILABLE b \<and> pretty_document b (final_xml_string b ai_root hdr d) = None
                then [PrettyPrintFailed] else [])"
    and "files (snd (reconstruct_filtered_dat b ai hdr d w)) = files w"
  using assms
  by (simp_all add: reconstruct_filtered_dat_def Let_def resolved_eq say_def split: option.splits)

lemma final_xml_string_parts:
  "final_xml_string b ai_root hdr d =
     join [10] ([xml_declaration, lit ''<'' @ tag ai_root @ lit ''>'', strip (fst (modified_header b hdr))]
                  @ map (fragment_of d) (filter (found_in d) (unique_kept_names ai_root))
                  @ [lit ''</'' @ tag ai_root @ lit ''>''])"
  unfolding final_xml_string_eq entry_fragments_eq ..

text \<open>
  Claim C8. When the response parses, reconstruction returns a document whatever names it
  selects: the declaration, the root tag, the header, the fragments of the selected names
  that are found in the store, in their order, and the closing tag, joined by newlines
  (and handed to the final pretty-printing when lxml is there). A selected name without a
  (non-empty) fragment in the store is not among the names whose fragments are written,
  so it adds no part. The console gets one warning for each such name, followed by the
  numbers of names found and missing, and no file is written.
\<close>

theorem unknown_names_omitted:
  "ai \<noteq> [] \<and> fromstring b (strip (strip_xml_decl ai)) = Some ai_root \<longrightarrow>
   (\<exists>doc. fst (reconstruct_filtered_dat b ai hdr d w) = Some doc) \<and>
   fst (reconstruct_filtered_dat b ai hdr d w) =
     Some (if LXML_AVAILABLE b
           then (case pretty_document b (final_xml_string b ai_root hdr d) of
                   Some pretty \<Rightarrow> pretty
                 | None \<Rightarrow> final_xml_string b ai_root hdr d)
           else final_xml_string b ai_root hdr d) \<and>
   final_xml_string b ai_root hdr d =
     join [10] ([xml_declaration, lit ''<'' @ tag ai_root @ lit ''>'', strip (fst (modified_header b hdr))]
                  @ map (fragment_of d) (filter (found_in d) (unique_kept_names ai_root))
                  @ [lit ''</'' @ tag ai_root @ lit ''>'']) \<and>
   console (snd (reconstruct_filtered_dat b ai hdr d w)) =
     console w @ snd (modified_header b hdr)
       @ [UniqueRequested (length (unique_kept_names ai_root))]
       @ map MissingGame (filter (\<lambda>n. \<not> found_in d n) (unique_kept_names ai_root))
       @ [Completed (length (filter (found_in d) (unique_kept_names ai_root)))
                    (length (filter (\<lambda>n. \<not> found_in d n) (unique_kept_names ai_root)))]
       @ (if 0 < length (filter (\<lambda>n. \<not> found_in d n) (unique_kept_names ai_root))
          then [MissingHint] else [])
       @ (if LXML_AVAILABLE b \<and> pretty_document b (final_xml_string b ai_root hdr d) = None
          then [PrettyPrintFailed] else []) \<and>
   files (snd (reconstruct_filtered_dat b ai hdr d w)) = files w \<and>
   entry_fragments b ai_root hdr d =
     map (fragment_of d) (filter (found_in d) (unique_kept_names ai_root)) \<and>
   fst (snd (snd (resolved b ai_root hdr d))) =
     length (filter (\<lambda>n. \<not> found_in d n) (unique_kept_names ai_root)) \<and>
   (\<forall>n\<in>set (unique_kept_names ai_root). d n = None \<longrightarrow>
      \<not> found_in d n \<and>
      n \<notin> set (filter (found_in d) (unique_kept_names ai_root)) \<and>
      MissingGame n \<in> set (console (snd (reconstruct_filtered_dat b ai hdr d w))))"
proof
  let ?U = "unique_kept_names ai_root"
  let ?R = "reconstruct_filtered_dat b ai hdr d w"
  assume a: "ai \<noteq> [] \<and> fromstring b (strip (strip_xml_decl ai)) = Some ai_root"
  then have ne: "ai \<noteq> []" and p: "fromstring b (strip (strip_xml_decl ai)) = Some ai_root"
    by simp_all
  have 2: "fst ?R =
     Some (if LXML_AVAILABLE b
           then (case pretty_document b (final_xml_string b ai_root hdr d) of
                   Some pretty \<Rightarrow> pretty
                 | None \<Rightarrow> final_xml_string b ai_root hdr d)
           else final_xml_string b ai_root hdr d)"
    using ne p by (rule reconstruct_parsed)
  then have 1: "\<exists>doc. fst ?R = Some doc" by simp
  note 3 = final_xml_string_parts [of b ai_root hdr d]
  note 4 = reconstruct_world(1) [OF ne p, of hdr d w]
  note 5 = reconstruct_world(2) [OF ne p, of hdr d w]
  note 6 = entry_fragments_eq [of b ai_root hdr d]
  have 7: "fst (snd (snd (resolved b ai_root hdr d))) =
     length (filter (\<lambda>n. \<not> found_in d n) ?U)"
    by (simp add: resolved_eq)
  have 8: "\<forall>n\<in>set ?U. d n = None \<longrightarrow>
      \<not> found_in d n \<and> n \<notin> set (filter (found_in d) ?U) \<and> MissingGame n \<in> set (console (snd ?R))"
  proof (intro ballI impI)
    fix n assume n: "n \<in> set ?U" and dn: "d n = None"
    have nf: "\<not> found_in d n" using dn by (simp add: found_in_def)
    then have nin: "n \<notin> set (filter (found_in d) ?U)" by simp
    have "MissingGame n \<in> set (map MissingGame (filter (\<lambda>n. \<not> found_in d n) ?U))"
      using n nf by simp
    then have "MissingGame n \<in> set (console (snd ?R))" unfolding 4 by simp
    with nf nin show "\<not> found_in d n \<and> n \<notin> set (filter (found_in d) ?U) \<and>
      MissingGame n \<in> set (console (snd ?R))" by simp
  qed
  show "(\<exists>doc. fst ?R = Some doc) \<and>
   fst ?R =
     Some (if LXML_AVAILABLE b
           then (case pretty_document b (final_xml_string b ai_root hdr d) of
                   Some pretty \<Rightarrow> pretty
                 | None \<Rightarrow> final_xml_string b ai_root hdr d)
           else final_xml_string b ai_root hdr d) \<and>
   final_xml_string b ai_root hdr d =
     join [10] ([xml_declaration, lit ''<'' @ tag ai_root @ lit ''>'', strip (fst (modified_header b hdr))]
                  @ map (fragment_of d) (filter (found_in d) ?U)
                  @ [lit ''</'' @ tag ai_root @ lit ''>'']) \<and>
   console (snd ?R) =
     console w @ snd (modified_header b hdr)
       @ [UniqueRequested (length ?U)]
       @ map MissingGame (filter (\<lambda>n. \<not> found_in d n) ?U)
       @ [Completed (length (filter (found_in d) ?U))
                    (length (filter (\<lambda>n. \<not> found_in d n) ?U))]
       @ (if 0 < length (filter (\<lambda>n. \<not> found_in d n) ?U)
          then [MissingHint] else [])
       @ (if LXML_AVAILABLE b \<and> pretty_document b (final_xml_string b ai_root hdr d) = None
          then [PrettyPrintFailed] else []) \<and>
   files (snd ?R) = files w \<and>
   entry_fragments b ai_root hdr d =
     map (fragment_of d) (filter (found_in d) ?U) \<and>
   fst (snd (snd (resolved b ai_root hdr d))) =
     length (filter (\<lambda>n. \<not> found_in d n) ?U) \<and>
   (\<forall>n\<in>set ?U. d n = None \<longrightarrow>
      \<not> found_in d n \<and>
      n \<notin> set (filter (found_in d) ?U) \<and>
      MissingGame n \<in> set (console (snd ?R)))"
    by (intro conjI 1 2 3 4 5 6 7 8)
qed

text \<open>A response that selects B, A, A and C, a store that knows A and B, and a backend
  without lxml whose parser knows this one response.\<close>

definition sel :: "string \<Rightarrow> element" where
  "sel n = Element (lit ''game'') [(lit ''name'', lit n)] None [] None"

definition ai_baac :: element where
  "ai_baac = Element (lit ''datafile'') [] None [sel ''B'', sel ''A'', sel ''A'', sel ''C''] None"

definition store_ab :: "pystr \<rightharpoonup> pystr" where
  "store_ab = [lit ''A'' \<mapsto> lit ''<game name=A>a</game>'' @ [10, 9],
               lit ''B'' \<mapsto> lit ''<game name=B>b</game>'' @ [10]]"

definition plain_backend :: backend where
  "plain_backend =
     \<lparr>LXML_AVAILABLE = False,
      fromstring = (\<lambda>s. if s = lit ''<datafile/>'' then Some ai_baac else None),
      tostring = show_element,
      tostring_pretty = (\<lambda>e. None),
      pretty_document = (\<lambda>s. None),
      writable = (\<lambda>f. True)\<rparr>"

definition world0 :: world where
  "world0 = \<lparr>files = Map.empty, console = [], api_calls = 0\<rparr>"

lemma strip_xml_decl_datafile: "strip (strip_xml_decl (lit ''<datafile/>'')) = lit ''<datafile/>''"
  by (simp add: strip_xml_decl_def strip_def lstrip_def rstrip_def is_space_def)

lemma unique_baac: "unique_kept_names ai_baac = [lit ''A'', lit ''B'', lit ''C'']"
  by (simp add: unique_kept_names_def kept_game_names_def findall_desc_def ai_baac_def sel_def
      elem_get_def sorted_list_of_set_sort_remdups)

theorem unknown_names_omitted_witness:
  "lit ''<datafile/>'' \<noteq> [] \<and>
   fromstring plain_backend (strip (strip_xml_decl (lit ''<datafile/>''))) = Some ai_baac \<and>
   store_ab (lit ''C'') = None \<and>
   fst (reconstruct_filtered_dat plain_backend (lit ''<datafile/>'') (lit ''<header/>'') store_ab world0) =
     Some (join [10] [xml_declaration, lit ''<datafile>'', lit ''<header/>'',
                      lit ''<game name=A>a</game>'', lit ''<game name=B>b</game>'',
                      lit ''</datafile>'']) \<and>
   console (snd (reconstruct_filtered_dat plain_backend (lit ''<datafile/>'') (lit ''<header/>'')
       store_ab world0)) =
     [HeaderFallback, UniqueRequested 3, MissingGame (lit ''C''), Completed 2 1, MissingHint] \<and>
   files (snd (reconstruct_filtered_dat plain_backend (lit ''<datafile/>'') (lit ''<header/>'')
       store_ab world0)) = Map.empty \<and>
   entry_fragments plain_backend ai_baac (lit ''<header/>'') store_ab =
     [lit ''<game name=A>a</game>'', lit ''<game name=B>b</game>''] \<and>
   fst (snd (snd (resolved plain_backend ai_baac (lit ''<header/>'') store_ab))) = 1"
proof -
  let ?R = "reconstruct_filtered_dat plain_backend (lit ''<datafile/>'') (lit ''<header/>'') store_ab world0"
  have n: "lit ''<datafile/>'' \<noteq> []" by simp
  have p: "fromstring plain_backend (strip (strip_xml_decl (lit ''<datafile/>''))) = Some ai_baac"
    unfolding strip_xml_decl_datafile by (simp add: plain_backend_def)
  have l: "\<not> LXML_AVAILABLE plain_backend" by (simp add: plain_backend_def)
  have dc: "store_ab (lit ''C'') = None" by (simp add: store_ab_def)
  have fl: "filter (found_in store_ab) [lit ''A'', lit ''B'', lit ''C''] = [lit ''A'', lit ''B'']"
    and fn: "filter (\<lambda>n. \<not> found_in store_ab n) [lit ''A'', lit ''B'', lit ''C''] = [lit ''C'']"
    by (simp_all add: found_in_def store_ab_def)
  have ga: "fragment_of store_ab (lit ''A'') = lit ''<game name=A>a</game>''"
    and gb: "fragment_of store_ab (lit ''B'') = lit ''<game name=B>b</game>''"
    by (simp_all add: fragment_of_def store_ab_def strip_xml_decl_def strip_def lstrip_def
        rstrip_def is_space_def)
  have mh: "modified_header plain_backend (lit ''<header/>'') = (lit ''<header/>'', [HeaderFallback])"
    by (simp add: modified_header_def plain_backend_def)
  have sh: "strip (lit ''<header/>'') = lit ''<header/>''"
    by (simp add: strip_def lstrip_def rstrip_def is_space_def)
  have tg: "tag ai_baac = lit ''datafile''" by (simp add: ai_baac_def)
  note t = unknown_names_omitted [of "lit ''<datafile/>''" plain_backend ai_baac "lit ''<header/>''"
      store_ab world0]
  from t n p have f: "final_xml_string plain_backend ai_baac (lit ''<header/>'') store_ab =
     join [10] ([xml_declaration, lit ''<'' @ tag ai_baac @ lit ''>'',
                 strip (fst (modified_header plain_backend (lit ''<header/>'')))]
                  @ map (fragment_of store_ab) (filter (found_in store_ab) (unique_kept_names ai_baac))
                  @ [lit ''</'' @ tag ai_baac @ lit ''>''])"
    by blast
  have f': "final_xml_string plain_backend ai_baac (lit ''<header/>'') store_ab =
     join [10] [xml_declaration, lit ''<datafile>'', lit ''<header/>'',
                lit ''<game name=A>a</game>'', lit ''<game name=B>b</game>'', lit ''</datafile>'']"
    unfolding f unique_baac fl mh tg using sh ga gb by simp
  from t n p have "fst ?R =
     Some (if LXML_AVAILABLE plain_backend
           then (case pretty_document plain_backend
                        (final_xml_string plain_backend ai_baac (lit ''<header/>'') store_ab) of
                   Some pretty \<Rightarrow> pretty
                 | None \<Rightarrow> final_xml_string plain_backend ai_baac (lit ''<header/>'') store_ab)
           else final_xml_string plain_backend ai_baac (lit ''<header/>'') store_ab)"
    by blast
  then have 1: "fst ?R =
     Some (join [10] [xml_declaration, lit ''<datafile>'', lit ''<header/>'',
                      lit ''<game name=A>a</game>'', lit ''<game name=B>b</game>'',
                      lit ''</datafile>''])"
    using l unfolding f' by simp
  from t n p have "console (snd ?R) =
     console world0 @ snd (modified_header plain_backend (lit ''<header/>''))
       @ [UniqueRequested (length (unique_kept_names ai_baac))]
       @ map MissingGame (filter (\<lambda>n. \<not> found_in store_ab n) (unique_kept_names ai_baac))
       @ [Completed (length (filter (found_in store_ab) (unique_kept_names ai_baac)))
                    (length (filter (\<lambda>n. \<not> found_in store_ab n) (unique_kept_names ai_baac)))]
       @ (if 0 < length (filter (\<lambda>n. \<not> found_in store_ab n) (unique_kept_names ai_baac))
          then [MissingHint] else [])
       @ (if LXML_AVAILABLE plain_backend \<and>
             pretty_document plain_backend
               (final_xml_string plain_backend ai_baac (lit ''<header/>'') store_ab) = None
          then [PrettyPrintFailed] else [])"
    by blast
  then have 2: "console (snd ?R) =
     [HeaderFallback, UniqueRequested 3, MissingGame (lit ''C''), Completed 2 1, MissingHint]"
    unfolding unique_baac fl fn mh using l by (simp add: world0_def)
  from t n p have "files (snd ?R) = files world0" by blast
  then have 3: "files (snd ?R) = Map.empty" by (simp add: world0_def)
  from t n p have "entry_fragments plain_backend ai_baac (lit ''<header/>'') store_ab =
     map (fragment_of store_ab) (filter (found_in store_ab) (unique_kept_names ai_baac))"
    by blast
  then have 4: "entry_fragments plain_backend ai_baac (lit ''<header/>'') store_ab =
     [lit ''<game name=A>a</game>'', lit ''<game name=B>b</game>'']"
    unfolding unique_baac fl using ga gb by simp
  from t n p have "fst (snd (snd (resolved plain_backend ai_baac (lit ''<header/>'') store_ab))) =
     length (filter (\<lambda>n. \<not> found_in store_ab n) (unique_kept_names ai_baac))"
    by blast
  then have 5: "fst (snd (snd (resolved plain_backend ai_baac (lit ''<header/>'') store_ab))) = 1"
    unfolding unique_baac fn by simp
  from n p dc 1 2 3 4 5 show ?thesis by blast
qed

lemma unique_kept_names_sort: "unique_kept_names r = sort (remdups (kept_game_names r))"
  by (simp add: unique_kept_names_def sorted_list_of_set_sort_remdups)

lemma found_names_once:
  "distinct (filter (found_in d) (unique_kept_names r)) \<and>
   length (filter (found_in d) (unique_kept_names r)) =
     card {n \<in> set (kept_game_names r). found_in d n}"
proof -
  have d: "distinct (filter (found_in d) (unique_kept_names r))"
    by (simp add: unique_kept_names_def)
  have "set (filter (found_in d) (unique_kept_names r)) = {n \<in> set (kept_game_names r). found_in d n}"
    by (simp add: unique_kept_names_def)
  then have "card {n \<in> set (kept_game_names r). found_in d n} =
      length (filter (found_in d) (unique_kept_names r))"
    using distinct_card [OF d] by simp
  with d show ?thesis by simp
qed

text \<open>
  Claim C2. The names taken from the response are made a set and sorted before they are
  looked up: the list that drives the loop is sorted, has no duplicate and has the
  elements of the extracted names. For a response that parses, the document that
  \<open>reconstruct_filtered_dat\<close> returns is the declaration, the root tag, the header, the
  fragments of the found names in that sorted order, one for each name found, and the
  closing tag, joined by newlines (and handed to the final pretty-printing when lxml is
  there). So two responses with the same root tag and the same set of names, in any
  order and with any repetition, give the same returned document. A response naming
  B, A, A against a store with A and B gives a document with the fragment of A, then the
  fragment of B, and nothing else between the header and the closing tag.
\<close>

theorem selection_sorted_deduplicated:
  "unique_kept_names ai_root = sort (remdups (kept_game_names ai_root)) \<and>
   sorted (unique_kept_names ai_root) \<and> distinct (unique_kept_names ai_root) \<and>
   set (unique_kept_names ai_root) = set (kept_game_names ai_root) \<and>
   entry_fragments b ai_root hdr d =
     map (fragment_of d) (filter (found_in d) (unique_kept_names ai_root)) \<and>
   (set (kept_game_names ai_root) = set (kept_game_names ai_root') \<longrightarrow>
      entry_fragments b ai_root hdr d = entry_fragments b' ai_root' hdr' d) \<and>
   (kept_game_names ai_root = [lit ''B'', lit ''A'', lit ''A''] \<and>
    d (lit ''A'') = Some fa \<and> d (lit ''B'') = Some fb \<and> fa \<noteq> [] \<and> fb \<noteq> [] \<longrightarrow>
      entry_fragments b ai_root hdr d = [strip (strip_xml_decl fa), strip (strip_xml_decl fb)]) \<and>
   distinct (filter (found_in d) (unique_kept_names ai_root)) \<and>
   length (filter (found_in d) (unique_kept_names ai_root)) =
     card {n \<in> set (kept_game_names ai_root). found_in d n} \<and>
   (ai \<noteq> [] \<and> fromstring b (strip (strip_xml_decl ai)) = Some ai_root \<longrightarrow>
      fst (reconstruct_filtered_dat b ai hdr d w) =
        Some (if LXML_AVAILABLE b
              then (case pretty_document b (final_xml_string b ai_root hdr d) of
                      Some pretty \<Rightarrow> pretty
                    | None \<Rightarrow> final_xml_string b ai_root hdr d)
              else final_xml_string b ai_root hdr d) \<and>
      final_xml_string b ai_root hdr d =
        join [10] ([xml_declaration, lit ''<'' @ tag ai_root @ lit ''>'',
                    strip (fst (modified_header b hdr))]
                     @ map (fragment_of d)
                         (filter (found_in d) (sort (remdups (kept_game_names ai_root))))
                     @ [lit ''</'' @ tag ai_root @ lit ''>'']) \<and>
      (ai' \<noteq> [] \<and> fromstring b (strip (strip_xml_decl ai')) = Some ai_root' \<and>
       tag ai_root' = tag ai_root \<and>
       set (kept_game_names ai_root') = set (kept_game_names ai_root) \<longrightarrow>
         fst (reconstruct_filtered_dat b ai' hdr d w') =
         fst (reconstruct_filtered_dat b ai hdr d w)) \<and>
      (kept_game_names ai_root = [lit ''B'', lit ''A'', lit ''A''] \<and>
       d (lit ''A'') = Some fa \<and> d (lit ''B'') = Some fb \<and> fa \<noteq> [] \<and> fb \<noteq> [] \<and>
       (\<not> LXML_AVAILABLE b \<or> pretty_document b (final_xml_string b ai_root hdr d) = None) \<longrightarrow>
         fst (reconstruct_filtered_dat b ai hdr d w) =
           Some (join [10] [xml_declaration, lit ''<'' @ tag ai_root @ lit ''>'',
                            strip (fst (modified_header b hdr)),
                            strip (strip_xml_decl fa), strip (strip_xml_decl fb),
                            lit ''</'' @ tag ai_root @ lit ''>''])))"
proof (intro conjI impI)
  show "unique_kept_names ai_root = sort (remdups (kept_game_names ai_root))"
    by (rule unique_kept_names_sort)
  show "sorted (unique_kept_names ai_root)" and "distinct (unique_kept_names ai_root)"
    and "set (unique_kept_names ai_root) = set (kept_game_names ai_root)"
    by (simp_all add: unique_kept_names_def)
  show "entry_fragments b ai_root hdr d =
     map (fragment_of d) (filter (found_in d) (unique_kept_names ai_root))"
    by (rule entry_fragments_eq)
  show "distinct (filter (found_in d) (unique_kept_names ai_root))"
    using found_names_once [of d ai_root] by blast
  show "length (filter (found_in d) (unique_kept_names ai_root)) =
     card {n \<in> set (kept_game_names ai_root). found_in d n}"
    using found_names_once [of d ai_root] by blast
next
  assume "set (kept_game_names ai_root) = set (kept_game_names ai_root')"
  then have "unique_kept_names ai_root = unique_kept_names ai_root'"
    by (simp add: unique_kept_names_def)
  then show "entry_fragments b ai_root hdr d = entry_fragments b' ai_root' hdr' d"
    by (simp add: entry_fragments_eq)
next
  assume a: "kept_game_names ai_root = [lit ''B'', lit ''A'', lit ''A''] \<and>
    d (lit ''A'') = Some fa \<and> d (lit ''B'') = Some fb \<and> fa \<noteq> [] \<and> fb \<noteq> []"
  then have u: "unique_kept_names ai_root = [lit ''A'', lit ''B'']"
    by (simp add: unique_kept_names_sort)
  have "found_in d (lit ''A'')" and "found_in d (lit ''B'')"
    and "fragment_of d (lit ''A'') = strip (strip_xml_decl fa)"
    and "fragment_of d (lit ''B'') = strip (strip_xml_decl fb)"
    using a by (simp_all add: found_in_def fragment_of_def)
  then show "entry_fragments b ai_root hdr d = [strip (strip_xml_decl fa), strip (strip_xml_decl fb)]"
    unfolding entry_fragments_eq u by simp
next
  assume a: "ai \<noteq> [] \<and> fromstring b (strip (strip_xml_decl ai)) = Some ai_root"
  then show "fst (reconstruct_filtered_dat b ai hdr d w) =
        Some (if LXML_AVAILABLE b
              then (case pretty_document b (final_xml_string b ai_root hdr d) of
                      Some pretty \<Rightarrow> pretty
                    | None \<Rightarrow> final_xml_string b ai_root hdr d)
              else final_xml_string b ai_root hdr d)"
    using reconstruct_parsed [of ai b ai_root hdr d w] by blast
next
  show "final_xml_string b ai_root hdr d =
        join [10] ([xml_declaration, lit ''<'' @ tag ai_root @ lit ''>'',
                    strip (fst (modified_header b hdr))]
                     @ map (fragment_of d)
                         (filter (found_in d) (sort (remdups (kept_game_names ai_root))))
                     @ [lit ''</'' @ tag ai_root @ lit ''>''])"
    unfolding final_xml_string_parts [of b ai_root hdr d] unique_kept_names_sort ..
next
  assume a: "ai \<noteq> [] \<and> fromstring b (strip (strip_xml_decl ai)) = Some ai_root"
    and a': "ai' \<noteq> [] \<and> fromstring b (strip (strip_xml_decl ai')) = Some ai_root' \<and>
       tag ai_root' = tag ai_root \<and>
       set (kept_game_names ai_root') = set (kept_game_names ai_root)"
  from a' have u: "unique_kept_names ai_root' = unique_kept_names ai_root"
    by (simp add: unique_kept_names_def)
  from a' have t: "tag ai_root' = tag ai_root" by blast
  have f: "final_xml_string b ai_root' hdr d = final_xml_string b ai_root hdr d"
    unfolding final_xml_string_parts u t ..
  have 1: "fst (reconstruct_filtered_dat b ai hdr d w) =
        Some (if LXML_AVAILABLE b
              then (case pretty_document b (final_xml_string b ai_root hdr d) of
                      Some pretty \<Rightarrow> pretty
                    | None \<Rightarrow> final_xml_string b ai_root hdr d)
              else final_xml_string b ai_root hdr d)"
    using reconstruct_parsed [of ai b ai_root hdr d w] a by blast
  have 2: "fst (reconstruct_filtered_dat b ai' hdr d w') =
        Some (if LXML_AVAILABLE b
              then (case pretty_document b (final_xml_string b ai_root' hdr d) of
                      Some pretty \<Rightarrow> pretty
                    | None \<Rightarrow> final_xml_string b ai_root' hdr d)
              else final_xml_string b ai_root' hdr d)"
    using reconstruct_parsed [of ai' b ai_root' hdr d w'] a' by blast
  show "fst (reconstruct_filtered_dat b ai' hdr d w') = fst (reconstruct_filtered_dat b ai hdr d w)"
    unfolding 1 2 f ..
next
  assume a: "ai \<noteq> [] \<and> fromstring b (strip (strip_xml_decl ai)) = Some ai_root"
    and e: "kept_game_names ai_root = [lit ''B'', lit ''A'', lit ''A''] \<and>
       d (lit ''A'') = Some fa \<and> d (lit ''B'') = Some fb \<and> fa \<noteq> [] \<and> fb \<noteq> [] \<and>
       (\<not> LXML_AVAILABLE b \<or> pretty_document b (final_xml_string b ai_root hdr d) = None)"
  from e have u: "unique_kept_names ai_root = [lit ''A'', lit ''B'']"
    by (simp add: unique_kept_names_sort)
  have fl: "filter (found_in d) [lit ''A'', lit ''B''] = [lit ''A'', lit ''B'']"
    using e by (simp add: found_in_def)
  have ga: "fragment_of d (lit ''A'') = strip (strip_xml_decl fa)"
    and gb: "fragment_of d (lit ''B'') = strip (strip_xml_decl fb)"
    using e by (simp_all add: fragment_of_def)
  have f: "final_xml_string b ai_root hdr d =
     join [10] [xml_declaration, lit ''<'' @ tag ai_root @ lit ''>'',
                strip (fst (modified_header b hdr)),
                strip (strip_xml_decl fa), strip (strip_xml_decl fb),
                lit ''</'' @ tag ai_root @ lit ''>'']"
    unfolding final_xml_string_parts u fl using ga gb by simp
  have 1: "fst (reconstruct_filtered_dat b ai hdr d w) =
        Some (if LXML_AVAILABLE b
              then (case pretty_document b (final_xml_string b ai_root hdr d) of
                      Some pretty \<Rightarrow> pretty
                    | None \<Rightarrow> final_xml_string b ai_root hdr d)
              else final_xml_string b ai_root hdr d)"
    using reconstruct_parsed [of ai b ai_root hdr d w] a by blast
  from e have "\<not> LXML_AVAILABLE b \<or> pretty_document b (final_xml_string b ai_root hdr d) = None"
    by (elim conjE)
  then have "fst (reconstruct_filtered_dat b ai hdr d w) = Some (final_xml_string b ai_root hdr d)"
    unfolding 1 by auto
  then show "fst (reconstruct_filtered_dat b ai hdr d w) =
           Some (join [10] [xml_declaration, lit ''<'' @ tag ai_root @ lit ''>'',
                            strip (fst (modified_header b hdr)),
                            strip (strip_xml_decl fa), strip (strip_xml_decl fb),
                            lit ''</'' @ tag ai_root @ lit ''>''])"
    unfolding f .
qed

definition ai_baa :: element where
  "ai_baa = Element (lit ''datafile'') [] None [sel ''B'', sel ''A'', sel ''A''] None"

definition ai_ab :: element where
  "ai_ab = Element (lit ''datafile'') [] None [sel ''A'', sel ''B''] None"

text \<open>The text of a response that selects the given names, and a backend with lxml
  whose parser knows the responses for B, A, A and for A, B. The fragments of the store
  \<open>store_ab\<close> have unquoted attribute values, so the final pretty-printing fails on the
  documents built from them.\<close>

definition sel_xml :: "string \<Rightarrow> pystr" where
  "sel_xml n = lit ''<game name='' @ [34] @ lit n @ [34] @ lit ''/>''"

definition response_of :: "string list \<Rightarrow> pystr" where
  "response_of ns = lit ''<datafile>'' @ concat (map sel_xml ns) @ lit ''</datafile>''"

definition lxml_backend :: backend where
  "lxml_backend =
     \<lparr>LXML_AVAILABLE = True,
      fromstring = (\<lambda>s. if s = response_of [''B'', ''A'', ''A''] then Some ai_baa
                        else if s = response_of [''A'', ''B''] then Some ai_ab else None),
      tostring = show_element,
      tostring_pretty = (\<lambda>e. None),
      pretty_document = (\<lambda>s. None),
      writable = (\<lambda>f. True)\<rparr>"

theorem selection_sorted_deduplicated_witness:
  "kept_game_names ai_baa = [lit ''B'', lit ''A'', lit ''A''] \<and>
   set (kept_game_names ai_baa) = set (kept_game_names ai_ab) \<and>
   entry_fragments plain_backend ai_baa (lit ''<header/>'') store_ab =
     [lit ''<game name=A>a</game>'', lit ''<game name=B>b</game>''] \<and>
   entry_fragments plain_backend ai_baa (lit ''<header/>'') store_ab =
     entry_fragments plain_backend ai_ab (lit ''<header/>'') store_ab \<and>
   response_of [''B'', ''A'', ''A''] \<noteq> [] \<and>
   fromstring lxml_backend (strip (strip_xml_decl (response_of [''B'', ''A'', ''A'']))) = Some ai_baa \<and>
   response_of [''A'', ''B''] \<noteq> [] \<and>
   fromstring lxml_backend (strip (strip_xml_decl (response_of [''A'', ''B'']))) = Some ai_ab \<and>
   tag ai_ab = tag ai_baa \<and>
   LXML_AVAILABLE lxml_backend \<and>
   pretty_document lxml_backend
     (final_xml_string lxml_backend ai_baa (lit ''<header>'') store_ab) = None \<and>
   fst (reconstruct_filtered_dat lxml_backend (response_of [''B'', ''A'', ''A'']) (lit ''<header>'')
          store_ab world0) =
     Some (join [10] [xml_declaration, lit ''<datafile>'', lit ''<header>'',
                      lit ''<game name=A>a</game>'', lit ''<game name=B>b</game>'',
                      lit ''</datafile>'']) \<and>
   fst (reconstruct_filtered_dat lxml_backend (response_of [''A'', ''B'']) (lit ''<header>'')
          store_ab world0) =
   fst (reconstruct_filtered_dat lxml_backend (response_of [''B'', ''A'', ''A'']) (lit ''<header>'')
          store_ab world0)"
proof -
  let ?baa = "response_of [''B'', ''A'', ''A'']"
  let ?ab = "response_of [''A'', ''B'']"
  let ?fa = "lit ''<game name=A>a</game>'' @ [10, 9]"
  let ?fb = "lit ''<game name=B>b</game>'' @ [10]"
  have k: "kept_game_names ai_baa = [lit ''B'', lit ''A'', lit ''A'']"
    by (simp add: kept_game_names_def findall_desc_def ai_baa_def sel_def elem_get_def)
  have k': "kept_game_names ai_ab = [lit ''A'', lit ''B'']"
    by (simp add: kept_game_names_def findall_desc_def ai_ab_def sel_def elem_get_def)
  have s: "set (kept_game_names ai_baa) = set (kept_game_names ai_ab)"
    unfolding k k' by auto
  have da: "store_ab (lit ''A'') = Some ?fa" and db: "store_ab (lit ''B'') = Some ?fb"
    by (simp_all add: store_ab_def)
  have ga: "strip (strip_xml_decl ?fa) = lit ''<game name=A>a</game>''"
    and gb: "strip (strip_xml_decl ?fb) = lit ''<game name=B>b</game>''"
    by (simp_all add: strip_xml_decl_def strip_def lstrip_def rstrip_def is_space_def)
  have na: "?fa \<noteq> []" and nb: "?fb \<noteq> []" by simp_all
  note t = selection_sorted_deduplicated [where ai_root = ai_baa and b = plain_backend
      and hdr = "lit ''<header/>''" and d = store_ab and ai_root' = ai_ab and b' = plain_backend
      and hdr' = "lit ''<header/>''" and fa = ?fa and fb = ?fb]
  have "entry_fragments plain_backend ai_baa (lit ''<header/>'') store_ab =
     [strip (strip_xml_decl ?fa), strip (strip_xml_decl ?fb)]"
    using t k da db na nb by blast
  then have 1: "entry_fragments plain_backend ai_baa (lit ''<header/>'') store_ab =
     [lit ''<game name=A>a</game>'', lit ''<game name=B>b</game>'']"
    unfolding ga gb .
  have 2: "entry_fragments plain_backend ai_baa (lit ''<header/>'') store_ab =
     entry_fragments plain_backend ai_ab (lit ''<header/>'') store_ab"
    using t s by blast
  have n1: "?baa \<noteq> []" and n2: "?ab \<noteq> []" by (simp_all add: response_of_def)
  have s1: "strip (strip_xml_decl ?baa) = ?baa"
    by (simp add: response_of_def sel_xml_def strip_xml_decl_def strip_def lstrip_def rstrip_def
        is_space_def)
  have s2: "strip (strip_xml_decl ?ab) = ?ab"
    by (simp add: response_of_def sel_xml_def strip_xml_decl_def strip_def lstrip_def rstrip_def
        is_space_def)
  have p1: "fromstring lxml_backend (strip (strip_xml_decl ?baa)) = Some ai_baa"
    unfolding s1 by (simp add: lxml_backend_def)
  have ne: "?ab \<noteq> ?baa" by (simp add: response_of_def sel_xml_def)
  have p2: "fromstring lxml_backend (strip (strip_xml_decl ?ab)) = Some ai_ab"
    unfolding s2 using ne by (simp add: lxml_backend_def)
  have tg: "tag ai_ab = tag ai_baa" by (simp add: ai_ab_def ai_baa_def)
  have tb: "tag ai_baa = lit ''datafile''" by (simp add: ai_baa_def)
  have l: "LXML_AVAILABLE lxml_backend" by (simp add: lxml_backend_def)
  have pd: "pretty_document lxml_backend
     (final_xml_string lxml_backend ai_baa (lit ''<header>'') store_ab) = None"
    by (simp add: lxml_backend_def)
  have mh: "strip (fst (modified_header lxml_backend (lit ''<header>''))) = lit ''<header>''"
    by (simp add: modified_header_def lxml_backend_def response_of_def sel_xml_def
        strip_def lstrip_def rstrip_def is_space_def)
  note t' = selection_sorted_deduplicated [where ai_root = ai_baa and b = lxml_backend
      and hdr = "lit ''<header>''" and d = store_ab and ai_root' = ai_ab and fa = ?fa and fb = ?fb
      and ai = ?baa and ai' = ?ab and w = world0 and w' = world0]
  have "fst (reconstruct_filtered_dat lxml_backend ?baa (lit ''<header>'') store_ab world0) =
     Some (join [10] [xml_declaration, lit ''<'' @ tag ai_baa @ lit ''>'',
                      strip (fst (modified_header lxml_backend (lit ''<header>''))),
                      strip (strip_xml_decl ?fa), strip (strip_xml_decl ?fb),
                      lit ''</'' @ tag ai_baa @ lit ''>''])"
    using t' n1 p1 k da db na nb pd by blast
  then have 3: "fst (reconstruct_filtered_dat lxml_backend ?baa (lit ''<header>'') store_ab world0) =
     Some (join [10] [xml_declaration, lit ''<datafile>'', lit ''<header>'',
                      lit ''<game name=A>a</game>'', lit ''<game name=B>b</game>'',
                      lit ''</datafile>''])"
    unfolding ga gb mh tb by simp
  have 4: "fst (reconstruct_filtered_dat lxml_backend ?ab (lit ''<header>'') store_ab world0) =
     fst (reconstruct_filtered_dat lxml_backend ?baa (lit ''<header>'') store_ab world0)"
    using t' n1 p1 n2 p2 tg s by blast
  from k s 1 2 n1 p1 n2 p2 tg l pd 3 4 show ?thesis by blast
qed

subsection \<open>The header fallback\<close>

text \<open>Parsing the original header or serialising the mutated one raises.\<close>

definition header_raises :: "backend \<Rightarrow> pystr \<Rightarrow> bool" where
  "header_raises b original_header =
     (case fromstring b original_header of
        None \<Rightarrow> True
      | Some header_element \<Rightarrow>
          LXML_AVAILABLE b \<and> tostring_pretty b (mutate_header header_element) = None)"

lemma modified_header_raises:
  "header_raises b hdr \<Longrightarrow> modified_header b hdr = (hdr, [HeaderFallback])"
  by (auto simp: header_raises_def modified_header_def split: option.splits)

text \<open>
  Claim C10. When the response parses and the header step raises (the original header
  does not parse, or the mutated header cannot be serialised), reconstruction still
  returns a document. It prints the warning, the header part of the document is the
  original header text (trimmed, as every part is), and the entries are resolved and
  emitted as in any other run.
\<close>

theorem header_error_falls_back:
  "ai \<noteq> [] \<and> fromstring b (strip (strip_xml_decl ai)) = Some ai_root \<and> header_raises b hdr \<longrightarrow>
   (\<exists>doc. fst (reconstruct_filtered_dat b ai hdr d w) = Some doc) \<and>
   HeaderFallback \<in> set (console (snd (reconstruct_filtered_dat b ai hdr d w))) \<and>
   final_xml_string b ai_root hdr d =
     join [10] ([xml_declaration, lit ''<'' @ tag ai_root @ lit ''>'', strip hdr]
                  @ map (fragment_of d) (filter (found_in d) (unique_kept_names ai_root))
                  @ [lit ''</'' @ tag ai_root @ lit ''>'']) \<and>
   (\<not> LXML_AVAILABLE b \<or> pretty_document b (final_xml_string b ai_root hdr d) = None \<longrightarrow>
      fst (reconstruct_filtered_dat b ai hdr d w) = Some (final_xml_string b ai_root hdr d))"
proof
  assume a: "ai \<noteq> [] \<and> fromstring b (strip (strip_xml_decl ai)) = Some ai_root \<and> header_raises b hdr"
  then have m: "modified_header b hdr = (hdr, [HeaderFallback])"
    by (simp add: modified_header_raises)
  have r: "fst (reconstruct_filtered_dat b ai hdr d w) =
           Some (if LXML_AVAILABLE b
                 then (case pretty_document b (final_xml_string b ai_root hdr d) of
                         Some pretty \<Rightarrow> pretty
                       | None \<Rightarrow> final_xml_string b ai_root hdr d)
                 else final_xml_string b ai_root hdr d)"
    using a by (intro reconstruct_parsed) simp_all
  have 1: "\<exists>doc. fst (reconstruct_filtered_dat b ai hdr d w) = Some doc"
    using r by simp
  obtain rest where c: "console (snd (reconstruct_filtered_dat b ai hdr d w)) =
           console w @ snd (modified_header b hdr)
             @ [UniqueRequested (length (unique_kept_names ai_root))]
             @ map MissingGame (filter (\<lambda>n. \<not> found_in d n) (unique_kept_names ai_root))
             @ [Completed (length (filter (found_in d) (unique_kept_names ai_root)))
                          (length (filter (\<lambda>n. \<not> found_in d n) (unique_kept_names ai_root)))]
             @ rest"
    using reconstruct_console [of ai b ai_root hdr d w] a by blast
  have 2: "HeaderFallback \<in> set (console (snd (reconstruct_filtered_dat b ai hdr d w)))"
    unfolding c m by simp
  have 3: "final_xml_string b ai_root hdr d =
     join [10] ([xml_declaration, lit ''<'' @ tag ai_root @ lit ''>'', strip hdr]
                  @ map (fragment_of d) (filter (found_in d) (unique_kept_names ai_root))
                  @ [lit ''</'' @ tag ai_root @ lit ''>''])"
    unfolding final_xml_string_eq entry_fragments_eq m by simp
  have 4: "\<not> LXML_AVAILABLE b \<or> pretty_document b (final_xml_string b ai_root hdr d) = None \<longrightarrow>
      fst (reconstruct_filtered_dat b ai hdr d w) = Some (final_xml_string b ai_root hdr d)"
    unfolding r by auto
  from 1 2 3 4
  show "(\<exists>doc. fst (reconstruct_filtered_dat b ai hdr d w) = Some doc) \<and>
   HeaderFallback \<in> set (console (snd (reconstruct_filtered_dat b ai hdr d w))) \<and>
   final_xml_string b ai_root hdr d =
     join [10] ([xml_declaration, lit ''<'' @ tag ai_root @ lit ''>'', strip hdr]
                  @ map (fragment_of d) (filter (found_in d) (unique_kept_names ai_root))
                  @ [lit ''</'' @ tag ai_root @ lit ''>'']) \<and>
   (\<not> LXML_AVAILABLE b \<or> pretty_document b (final_xml_string b ai_root hdr d) = None \<longrightarrow>
      fst (reconstruct_filtered_dat b ai hdr d w) = Some (final_xml_string b ai_root hdr d))"
    by blast
qed

theorem header_error_falls_back_witness:
  "header_raises plain_backend (lit ''<header>'') \<and>
   HeaderFallback \<in> set (console (snd (reconstruct_filtered_dat plain_backend (lit ''<datafile/>'')
       (lit ''<header>'') store_ab world0))) \<and>
   fst (reconstruct_filtered_dat plain_backend (lit ''<datafile/>'') (lit ''<header>'') store_ab world0) =
     Some (join [10] [xml_declaration, lit ''<datafile>'', lit ''<header>'',
                      lit ''<game name=A>a</game>'', lit ''<game name=B>b</game>'', lit ''</datafile>''])"
proof -
  have p: "fromstring plain_backend (strip (strip_xml_decl (lit ''<datafile/>''))) = Some ai_baac"
    unfolding strip_xml_decl_datafile by (simp add: plain_backend_def)
  have h: "header_raises plain_backend (lit ''<header>'')"
    by (simp add: header_raises_def plain_backend_def)
  have l: "\<not> LXML_AVAILABLE plain_backend" by (simp add: plain_backend_def)
  have n: "lit ''<datafile/>'' \<noteq> []" by simp
  note t = header_error_falls_back [of "lit ''<datafile/>''" plain_backend ai_baac "lit ''<header>''"
      store_ab world0]
  have 1: "HeaderFallback \<in> set (console (snd (reconstruct_filtered_dat plain_backend (lit ''<datafile/>'')
       (lit ''<header>'') store_ab world0)))"
    using t n p h by blast
  have 2: "fst (reconstruct_filtered_dat plain_backend (lit ''<datafile/>'') (lit ''<header>'') store_ab world0) =
     Some (final_xml_string plain_backend ai_baac (lit ''<header>'') store_ab)"
    using t n p h l by blast
  have 3: "final_xml_string plain_backend ai_baac (lit ''<header>'') store_ab =
     join [10] ([xml_declaration, lit ''<'' @ tag ai_baac @ lit ''>'', strip (lit ''<header>'')]
                  @ map (fragment_of store_ab) (filter (found_in store_ab) (unique_kept_names ai_baac))
                  @ [lit ''</'' @ tag ai_baac @ lit ''>''])"
    using t n p h by blast
  have fa: "found_in store_ab (lit ''A'')" and fb: "found_in store_ab (lit ''B'')"
    and fc: "\<not> found_in store_ab (lit ''C'')"
    by (simp_all add: found_in_def store_ab_def)
  have ga: "fragment_of store_ab (lit ''A'') = lit ''<game name=A>a</game>''"
    and gb: "fragment_of store_ab (lit ''B'') = lit ''<game name=B>b</game>''"
    by (simp_all add: fragment_of_def store_ab_def strip_xml_decl_def strip_def lstrip_def
        rstrip_def is_space_def)
  have sh: "strip (lit ''<header>'') = lit ''<header>''"
    by (simp add: strip_def lstrip_def rstrip_def is_space_def)
  have tg: "tag ai_baac = lit ''datafile''" by (simp add: ai_baac_def)
  have 4: "final_xml_string plain_backend ai_baac (lit ''<header>'') store_ab =
     join [10] [xml_declaration, lit ''<datafile>'', lit ''<header>'',
                lit ''<game name=A>a</game>'', lit ''<game name=B>b</game>'', lit ''</datafile>'']"
    unfolding 3 unique_baac sh tg using fa fb fc ga gb by simp
  from h 1 2 4 show ?thesis by simp
qed

subsection \<open>Retained entries\<close>

lemma strip_decomp:
  "\<exists>p q. s = p @ strip s @ q \<and> (\<forall>c\<in>set p. is_space c) \<and> (\<forall>c\<in>set q. is_space c)"
proof -
  let ?p = "takeWhile is_space s" and ?q = "rev (takeWhile is_space (rev (lstrip s)))"
  have "s = ?p @ lstrip s" by (simp add: lstrip_def)
  moreover have "lstrip s = strip s @ ?q"
    using rstrip_prefix [of "lstrip s"] by (simp add: strip_def)
  ultimately have "s = ?p @ strip s @ ?q" by simp
  moreover have "\<forall>c\<in>set ?p. is_space c" by (auto dest: set_takeWhileD)
  moreover have "\<forall>c\<in>set ?q. is_space c" by (auto dest: set_takeWhileD)
  ultimately show ?thesis by blast
qed

lemma strip_xml_decl_game: "prefix (lit ''<game'') s \<Longrightarrow> strip_xml_decl s = s"
  by (auto simp: prefix_def strip_xml_decl_def is_space_def)

lemma findall_desc_tag: "g \<in> set (findall_desc t e) \<Longrightarrow> tag g = t"
  by (simp add: findall_desc_def)

lemma find_SomeD: "find P xs = Some x \<Longrightarrow> P x \<and> x \<in> set xs"
  by (induction xs) (auto split: if_splits)

lemma last_named_Some:
  "last_named n gs = Some g \<Longrightarrow> g \<in> set gs \<and> elem_get g (lit ''name'') = Some n"
  unfolding last_named_def by (drule find_SomeD) simp

lemma kept_game_names_nonempty: "n \<in> set (kept_game_names r) \<Longrightarrow> n \<noteq> []"
  by (auto simp: kept_game_names_def split: option.splits if_splits)

lemma parsed_store:
  assumes "games_data (parse_and_compress_dat ser stem (Parsed root)) = Some store" and "n \<noteq> []"
  shows "store n = map_option ser (last_named n (findall_desc (lit ''game'') root))"
proof -
  have "games_data (parse_and_compress_dat ser stem (Parsed root)) =
      Some (fst (games_loop ser (findall_desc (lit ''game'') root) (Map.empty, [])))"
    by (simp add: parse_and_compress_dat_def Let_def split: prod.splits)
  with assms(1) have "store = fst (games_loop ser (findall_desc (lit ''game'') root) (Map.empty, []))"
    by simp
  then show ?thesis using assms(2) by (simp add: games_loop_store split: option.splits)
qed

text \<open>What is emitted for a name: the trimmed serialisation of the last input element
  with that name.\<close>

definition original_fragment :: "(element \<Rightarrow> pystr) \<Rightarrow> element list \<Rightarrow> pystr \<Rightarrow> pystr" where
  "original_fragment ser games n =
     (case last_named n games of None \<Rightarrow> [] | Some g \<Rightarrow> strip (ser g))"

lemma store_fragments:
  assumes ser: "\<forall>g. tag g = lit ''game'' \<longrightarrow> prefix (lit ''<game'') (ser g)"
    and store: "games_data (parse_and_compress_dat ser stem (Parsed root)) = Some store"
    and n: "n \<in> set (unique_kept_names ai_root)"
  shows "found_in store n \<longleftrightarrow> last_named n (findall_desc (lit ''game'') root) \<noteq> None"
    and "fragment_of store n = original_fragment ser (findall_desc (lit ''game'') root) n"
proof -
  let ?games = "findall_desc (lit ''game'') root"
  have ne: "n \<noteq> []" using n by (simp add: unique_kept_names_def kept_game_names_nonempty)
  have s: "store n = map_option ser (last_named n ?games)"
    using store ne by (rule parsed_store)
  have p: "prefix (lit ''<game'') (ser g)" if "last_named n ?games = Some g" for g
    using that ser last_named_Some [of n ?games g] findall_desc_tag [of g "lit ''game''" root]
    by blast
  show "found_in store n \<longleftrightarrow> last_named n ?games \<noteq> None"
  proof (cases "last_named n ?games")
    case None
    then show ?thesis using s by (simp add: found_in_def)
  next
    case (Some g)
    from p [OF Some] have "ser g \<noteq> []" by (auto simp: prefix_def)
    then show ?thesis using s Some by (simp add: found_in_def)
  qed
  show "fragment_of store n = original_fragment ser ?games n"
  proof (cases "last_named n ?games")
    case None
    then show ?thesis using s by (simp add: fragment_of_def original_fragment_def)
  next
    case (Some g)
    from p [OF Some] have "strip_xml_decl (ser g) = ser g" by (rule strip_xml_decl_game)
    then show ?thesis using s Some by (simp add: fragment_of_def original_fragment_def)
  qed
qed

text \<open>
  Claim C1. Let the store be the one built by \<open>parse_and_compress_dat\<close> from the input,
  with a serialiser that writes a game element starting with its opening tag and no
  XML declaration (as serialisation to \<open>unicode\<close> does). Then the parts of the document
  after the header are, for the selected names that have an element in the input and in
  sorted order, the stored serialisation of that element, trimmed: each emitted part
  \<open>f\<close> satisfies \<open>ser g = p @ f @ q\<close> for an input game element \<open>g\<close> with a selected name,
  where \<open>p\<close> and \<open>q\<close> are white space. The document is the declaration, the root tag, the
  header, these parts and the closing tag joined by newlines, and it is what the function
  returns when the final pretty-printing by lxml is not available or fails.
\<close>

theorem retained_entries_verbatim:
  "(\<forall>g. tag g = lit ''game'' \<longrightarrow> prefix (lit ''<game'') (ser g)) \<and>
   games_data (parse_and_compress_dat ser stem (Parsed root)) = Some store \<longrightarrow>
   entry_fragments b ai_root hdr store =
     map (original_fragment ser (findall_desc (lit ''game'') root))
         (filter (\<lambda>n. last_named n (findall_desc (lit ''game'') root) \<noteq> None)
                 (unique_kept_names ai_root)) \<and>
   (\<forall>f\<in>set (entry_fragments b ai_root hdr store).
      \<exists>g\<in>set (findall_desc (lit ''game'') root). \<exists>n\<in>set (kept_game_names ai_root). \<exists>p q.
        elem_get g (lit ''name'') = Some n \<and> store n = Some (ser g) \<and>
        ser g = p @ f @ q \<and> (\<forall>c\<in>set p. is_space c) \<and> (\<forall>c\<in>set q. is_space c)) \<and>
   final_xml_string b ai_root hdr store =
     join [10] ([xml_declaration, lit ''<'' @ tag ai_root @ lit ''>'', strip (fst (modified_header b hdr))]
                  @ entry_fragments b ai_root hdr store @ [lit ''</'' @ tag ai_root @ lit ''>'']) \<and>
   (ai \<noteq> [] \<and> fromstring b (strip (strip_xml_decl ai)) = Some ai_root \<and>
    (\<not> LXML_AVAILABLE b \<or> pretty_document b (final_xml_string b ai_root hdr store) = None) \<longrightarrow>
      fst (reconstruct_filtered_dat b ai hdr store w) = Some (final_xml_string b ai_root hdr store))"
proof
  let ?games = "findall_desc (lit ''game'') root"
  let ?U = "unique_kept_names ai_root"
  assume a: "(\<forall>g. tag g = lit ''game'' \<longrightarrow> prefix (lit ''<game'') (ser g)) \<and>
   games_data (parse_and_compress_dat ser stem (Parsed root)) = Some store"
  then have ser: "\<forall>g. tag g = lit ''game'' \<longrightarrow> prefix (lit ''<game'') (ser g)"
    and store: "games_data (parse_and_compress_dat ser stem (Parsed root)) = Some store"
    by simp_all
  have f: "filter (found_in store) ?U = filter (\<lambda>n. last_named n ?games \<noteq> None) ?U"
  proof (rule filter_cong)
    fix x assume "x \<in> set ?U"
    then show "found_in store x = (last_named x ?games \<noteq> None)"
      by (rule store_fragments(1) [OF ser store])
  qed simp
  have m: "map (fragment_of store) (filter (\<lambda>n. last_named n ?games \<noteq> None) ?U) =
           map (original_fragment ser ?games) (filter (\<lambda>n. last_named n ?games \<noteq> None) ?U)"
  proof (rule map_cong)
    fix x assume "x \<in> set (filter (\<lambda>n. last_named n ?games \<noteq> None) ?U)"
    then have "x \<in> set ?U" by simp
    then show "fragment_of store x = original_fragment ser ?games x"
      by (rule store_fragments(2) [OF ser store])
  qed simp
  have 1: "entry_fragments b ai_root hdr store =
     map (original_fragment ser ?games) (filter (\<lambda>n. last_named n ?games \<noteq> None) ?U)"
    unfolding entry_fragments_eq f m ..
  have 2: "\<forall>f\<in>set (entry_fragments b ai_root hdr store).
      \<exists>g\<in>set ?games. \<exists>n\<in>set (kept_game_names ai_root). \<exists>p q.
        elem_get g (lit ''name'') = Some n \<and> store n = Some (ser g) \<and>
        ser g = p @ f @ q \<and> (\<forall>c\<in>set p. is_space c) \<and> (\<forall>c\<in>set q. is_space c)"
  proof
    fix fr assume "fr \<in> set (entry_fragments b ai_root hdr store)"
    then obtain n where n: "n \<in> set ?U" and l: "last_named n ?games \<noteq> None"
      and fr: "fr = original_fragment ser ?games n"
      unfolding 1 by auto
    from l obtain g where g: "last_named n ?games = Some g" by auto
    have nk: "n \<in> set (kept_game_names ai_root)" using n by (simp add: unique_kept_names_def)
    then have ne: "n \<noteq> []" by (rule kept_game_names_nonempty)
    have gs: "g \<in> set ?games" and gn: "elem_get g (lit ''name'') = Some n"
      using last_named_Some [OF g] by simp_all
    have sn: "store n = Some (ser g)"
      using parsed_store [OF store ne] g by simp
    have "fr = strip (ser g)" using fr g by (simp add: original_fragment_def)
    then obtain p q where "ser g = p @ fr @ q" and "\<forall>c\<in>set p. is_space c" and "\<forall>c\<in>set q. is_space c"
      using strip_decomp [of "ser g"] by auto
    with gs nk gn sn
    show "\<exists>g\<in>set ?games. \<exists>n\<in>set (kept_game_names ai_root). \<exists>p q.
        elem_get g (lit ''name'') = Some n \<and> store n = Some (ser g) \<and>
        ser g = p @ fr @ q \<and> (\<forall>c\<in>set p. is_space c) \<and> (\<forall>c\<in>set q. is_space c)"
      by blast
  qed
  have 4: "ai \<noteq> [] \<and> fromstring b (strip (strip_xml_decl ai)) = Some ai_root \<and>
    (\<not> LXML_AVAILABLE b \<or> pretty_document b (final_xml_string b ai_root hdr store) = None) \<longrightarrow>
      fst (reconstruct_filtered_dat b ai hdr store w) = Some (final_xml_string b ai_root hdr store)"
  proof
    assume h: "ai \<noteq> [] \<and> fromstring b (strip (strip_xml_decl ai)) = Some ai_root \<and>
      (\<not> LXML_AVAILABLE b \<or> pretty_document b (final_xml_string b ai_root hdr store) = None)"
    then have "fst (reconstruct_filtered_dat b ai hdr store w) =
           Some (if LXML_AVAILABLE b
                 then (case pretty_document b (final_xml_string b ai_root hdr store) of
                         Some pretty \<Rightarrow> pretty
                       | None \<Rightarrow> final_xml_string b ai_root hdr store)
                 else final_xml_string b ai_root hdr store)"
      by (intro reconstruct_parsed) simp_all
    with h show "fst (reconstruct_filtered_dat b ai hdr store w) =
       Some (final_xml_string b ai_root hdr store)" by auto
  qed
  from 1 2 final_xml_string_eq [of b ai_root hdr store] 4
  show "entry_fragments b ai_root hdr store =
     map (original_fragment ser ?games) (filter (\<lambda>n. last_named n ?games \<noteq> None) ?U) \<and>
   (\<forall>f\<in>set (entry_fragments b ai_root hdr store).
      \<exists>g\<in>set ?games. \<exists>n\<in>set (kept_game_names ai_root). \<exists>p q.
        elem_get g (lit ''name'') = Some n \<and> store n = Some (ser g) \<and>
        ser g = p @ f @ q \<and> (\<forall>c\<in>set p. is_space c) \<and> (\<forall>c\<in>set q. is_space c)) \<and>
   final_xml_string b ai_root hdr store =
     join [10] ([xml_declaration, lit ''<'' @ tag ai_root @ lit ''>'', strip (fst (modified_header b hdr))]
                  @ entry_fragments b ai_root hdr store @ [lit ''</'' @ tag ai_root @ lit ''>'']) \<and>
   (ai \<noteq> [] \<and> fromstring b (strip (strip_xml_decl ai)) = Some ai_root \<and>
    (\<not> LXML_AVAILABLE b \<or> pretty_document b (final_xml_string b ai_root hdr store) = None) \<longrightarrow>
      fst (reconstruct_filtered_dat b ai hdr store w) = Some (final_xml_string b ai_root hdr store))"
    by blast
qed


definition dup_store :: "pystr \<rightharpoonup> pystr" where
  "dup_store = fst (games_loop show_element (findall_desc (lit ''game'') dup_root) (Map.empty, []))"

lemma show_element_prefix: "prefix (lit ''<'' @ tag g) (show_element g)"
  by (simp add: show_element_def prefix_def)

theorem retained_entries_verbatim_witness:
  "games_data (parse_and_compress_dat show_element (lit ''x'') (Parsed dup_root)) = Some dup_store \<and>
   entry_fragments plain_backend ai_baac (lit ''<header>'') dup_store =
     [strip (show_element game_a2), strip (show_element game_b)] \<and>
   fst (reconstruct_filtered_dat plain_backend (lit ''<datafile/>'') (lit ''<header>'') dup_store world0) =
     Some (join [10] [xml_declaration, lit ''<datafile>'', lit ''<header>'',
                      lit ''<game name='' @ [34] @ lit ''A'' @ [34] @ lit ''>second</game>'',
                      lit ''<game name='' @ [34] @ lit ''B'' @ [34] @ lit ''></game>'',
                      lit ''</datafile>''])"
proof -
  let ?games = "findall_desc (lit ''game'') dup_root"
  have ser: "\<forall>g. tag g = lit ''game'' \<longrightarrow> prefix (lit ''<game'') (show_element g)"
    using show_element_prefix by (metis append_Cons append_Nil list.simps(8,9) of_char_Char)
  have st: "games_data (parse_and_compress_dat show_element (lit ''x'') (Parsed dup_root)) = Some dup_store"
    by (simp add: parse_and_compress_dat_def Let_def dup_store_def split: prod.splits)
  have p: "fromstring plain_backend (strip (strip_xml_decl (lit ''<datafile/>''))) = Some ai_baac"
    unfolding strip_xml_decl_datafile by (simp add: plain_backend_def)
  have l: "\<not> LXML_AVAILABLE plain_backend" by (simp add: plain_backend_def)
  have n: "lit ''<datafile/>'' \<noteq> []" by simp
  note t = retained_entries_verbatim [of show_element "lit ''x''" dup_root dup_store plain_backend
      ai_baac "lit ''<header>''" "lit ''<datafile/>''" world0]
  have g: "?games = [game_a1, game_b, game_a2]"
    by (simp add: findall_desc_def dup_root_def game_a1_def game_a2_def game_b_def)
  have la: "last_named (lit ''A'') ?games = Some game_a2"
    and lb: "last_named (lit ''B'') ?games = Some game_b"
    and lc: "last_named (lit ''C'') ?games = None"
    unfolding g by (simp_all add: last_named_def elem_get_def game_a1_def game_a2_def game_b_def)
  have "entry_fragments plain_backend ai_baac (lit ''<header>'') dup_store =
     map (original_fragment show_element ?games)
         (filter (\<lambda>n. last_named n ?games \<noteq> None) (unique_kept_names ai_baac))"
    using t ser st by blast
  then have 1: "entry_fragments plain_backend ai_baac (lit ''<header>'') dup_store =
     [strip (show_element game_a2), strip (show_element game_b)]"
    unfolding unique_baac using la lb lc by (simp add: original_fragment_def)
  have 2: "fst (reconstruct_filtered_dat plain_backend (lit ''<datafile/>'') (lit ''<header>'') dup_store world0) =
     Some (final_xml_string plain_backend ai_baac (lit ''<header>'') dup_store)"
    using t ser st n p l by blast
  have 3: "final_xml_string plain_backend ai_baac (lit ''<header>'') dup_store =
     join [10] ([xml_declaration, lit ''<'' @ tag ai_baac @ lit ''>'',
                 strip (fst (modified_header plain_backend (lit ''<header>'')))]
                  @ entry_fragments plain_backend ai_baac (lit ''<header>'') dup_store
                  @ [lit ''</'' @ tag ai_baac @ lit ''>''])"
    using t ser st by blast
  have mh: "strip (fst (modified_header plain_backend (lit ''<header>''))) = lit ''<header>''"
    by (simp add: modified_header_def plain_backend_def strip_def lstrip_def rstrip_def is_space_def)
  have sa: "strip (show_element game_a2) = lit ''<game name='' @ [34] @ lit ''A'' @ [34] @ lit ''>second</game>''"
    and sb: "strip (show_element game_b) = lit ''<game name='' @ [34] @ lit ''B'' @ [34] @ lit ''></game>''"
    by (simp_all add: show_element_def game_a2_def game_b_def strip_def lstrip_def rstrip_def is_space_def)
  have tg: "tag ai_baac = lit ''datafile''" by (simp add: ai_baac_def)
  have 4: "final_xml_string plain_backend ai_baac (lit ''<header>'') dup_store =
     join [10] [xml_declaration, lit ''<datafile>'', lit ''<header>'',
                lit ''<game name='' @ [34] @ lit ''A'' @ [34] @ lit ''>second</game>'',
                lit ''<game name='' @ [34] @ lit ''B'' @ [34] @ lit ''></game>'',
                lit ''</datafile>'']"
    unfolding 3 1 mh sa sb tg by simp
  from st 1 2 4 show ?thesis by simp
qed

section \<open>The header mutation\<close>

subsection \<open>Positions of children\<close>

lemma index_of_SomeD:
  "index_of P xs = Some i \<Longrightarrow> i < length xs \<and> P (xs ! i) \<and> (\<forall>x\<in>set (take i xs). \<not> P x)"
proof (induction xs arbitrary: i)
  case Nil
  then show ?case by simp
next
  case (Cons x xs)
  show ?case
  proof (cases "P x")
    case True
    with Cons.prems show ?thesis by simp
  next
    case False
    with Cons.prems obtain j where j: "index_of P xs = Some j" and i: "i = Suc j" by auto
    from Cons.IH [OF j] False i show ?thesis by simp
  qed
qed

lemma index_of_None: "index_of P xs = None \<longleftrightarrow> (\<forall>x\<in>set xs. \<not> P x)"
  by (induction xs) auto

lemma index_of_first:
  "(\<forall>x\<in>set pre. \<not> P x) \<Longrightarrow> P r \<Longrightarrow> index_of P (pre @ r # post) = Some (length pre)"
  by (induction pre) auto

lemma find_index_of:
  "find P xs = (case index_of P xs of None \<Rightarrow> None | Some i \<Rightarrow> Some (xs ! i))"
  by (induction xs) (auto split: option.splits)

lemma find_insert_other:
  "\<not> P y \<Longrightarrow> find P (take i xs @ y # drop i xs) = find P xs"
proof -
  assume "\<not> P y"
  then have "find P (take i xs @ y # drop i xs) = find P (take i xs @ drop i xs)"
    unfolding find_append_case by (simp cong: option.case_cong)
  then show ?thesis by simp
qed

lemma find_remove_other:
  assumes "i < length xs" and "\<not> P (xs ! i)"
  shows "find P (take i xs @ drop (Suc i) xs) = find P xs"
proof -
  have "xs = take i xs @ xs ! i # drop (Suc i) xs" using assms(1) by (rule id_take_nth_drop)
  then have "find P xs = find P (take i xs @ xs ! i # drop (Suc i) xs)" by simp
  also have "\<dots> = find P (take i xs @ drop (Suc i) xs)"
    unfolding find_append_case using assms(2) by (simp cong: option.case_cong)
  finally show ?thesis by simp
qed

subsection \<open>The marker and trimming\<close>

lemma dropWhile_keeps:
  assumes "m \<noteq> []" and "\<not> P (hd m)"
  shows "\<exists>p'. dropWhile P (p @ m @ q) = p' @ m @ q"
proof (cases "\<forall>x\<in>set p. P x")
  case True
  then have "dropWhile P (p @ m @ q) = dropWhile P (m @ q)" by (simp add: dropWhile_append2)
  also have "\<dots> = m @ q" using assms by (cases m) auto
  finally have "dropWhile P (p @ m @ q) = [] @ m @ q" by simp
  then show ?thesis by blast
next
  case False
  then obtain x where "x \<in> set p" and "\<not> P x" by blast
  then have "dropWhile P (p @ m @ q) = dropWhile P p @ m @ q" by (rule dropWhile_append1)
  then show ?thesis by blast
qed

lemma sublist_strip:
  assumes "sublist m s" and "m \<noteq> []" and "\<not> is_space (hd m)" and "\<not> is_space (last m)"
  shows "sublist m (strip s)"
proof -
  from assms(1) obtain p q where s: "s = p @ m @ q" by (auto simp: sublist_def)
  obtain p' where l: "lstrip s = p' @ m @ q"
    unfolding s lstrip_def using dropWhile_keeps [of m is_space p q] assms(2,3) by blast
  have "rev m \<noteq> []" and "\<not> is_space (hd (rev m))" using assms(2,4) by (simp_all add: hd_rev)
  then obtain q' where "dropWhile is_space (rev q @ rev m @ rev p') = q' @ rev m @ rev p'"
    using dropWhile_keeps [of "rev m" is_space "rev q" "rev p'"] by blast
  then have "rstrip (lstrip s) = p' @ m @ rev q'"
    unfolding l rstrip_def by simp
  then show ?thesis by (auto simp: strip_def sublist_def)
qed

lemma sublist_of_strip: "sublist m (strip s) \<Longrightarrow> sublist m s"
proof -
  assume "sublist m (strip s)"
  then obtain a c where 1: "strip s = a @ m @ c" by (auto simp: sublist_def)
  obtain p q where "s = p @ strip s @ q" using strip_sub by blast
  then have "s = (p @ a) @ m @ (c @ q)" unfolding 1 by simp
  then show ?thesis unfolding sublist_def by blast
qed

lemma marker_ends: "marker \<noteq> []" "\<not> is_space (hd marker)" "\<not> is_space (last marker)"
  by (simp_all add: marker_def is_space_def)

lemma marker_in_strip: "sublist marker (strip t) \<longleftrightarrow> sublist marker t"
  using sublist_strip [OF _ marker_ends] sublist_of_strip by blast

subsection \<open>The description field\<close>

text \<open>The text of the description field: the text of the first \<open>description\<close> child.\<close>

definition desc_text :: "element \<Rightarrow> pystr option" where
  "desc_text header_element =
     (case find_child (lit ''description'') header_element of
        None \<Rightarrow> None
      | Some desc_tag \<Rightarrow> etext desc_tag)"

lemma children_set_children [simp]: "children (set_children cs e) = cs"
  by (simp add: set_children_def)

lemma tag_set_etext [simp]: "tag (set_etext t e) = tag e"
  and etext_set_etext [simp]: "etext (set_etext t e) = t"
  by (simp_all add: set_etext_def)

lemma desc_text_insert_aknf: "desc_text (insert_aknf h) = desc_text h"
proof -
  have "tag aknf_tag \<noteq> lit ''description''" by (simp add: aknf_tag_def)
  then show ?thesis
    by (simp add: desc_text_def find_child_def insert_aknf_def Let_def find_insert_other)
qed

lemma desc_text_remove_existing: "desc_text (remove_existing h) = desc_text h"
proof (cases "index_of (\<lambda>c. tag c = lit ''geminiaknf'') (children h)")
  case None
  then show ?thesis by (simp add: remove_existing_def)
next
  case (Some i)
  from index_of_SomeD [OF Some] have i: "i < length (children h)"
    and t: "tag (children h ! i) = lit ''geminiaknf''" by simp_all
  from t have "\<not> tag (children h ! i) = lit ''description''" by simp
  with i have "find (\<lambda>c. tag c = lit ''description'') (take i (children h) @ drop (Suc i) (children h))
      = find (\<lambda>c. tag c = lit ''description'') (children h)"
    by (rule find_remove_other)
  then show ?thesis using Some by (simp add: remove_existing_def desc_text_def find_child_def)
qed

lemma desc_text_mutate_header: "desc_text (mutate_header h) = desc_text (set_description h)"
  by (simp add: mutate_header_def desc_text_insert_aknf desc_text_remove_existing)

lemma set_description_marked:
  assumes "desc_text h = Some t" and "sublist marker t"
  shows "set_description h = h"
proof -
  let ?P = "\<lambda>c. tag c = lit ''description''"
  from assms(1) obtain i where i: "index_of ?P (children h) = Some i"
    and t: "etext (children h ! i) = Some t"
    by (auto simp: desc_text_def find_child_def find_index_of split: option.splits)
  have "t \<noteq> []" using assms(2) marker_ends(1) by auto
  moreover have "sublist marker (strip t)" using assms(2) by (simp add: marker_in_strip)
  ultimately show ?thesis using i t by (simp add: set_description_def Let_def)
qed

lemma set_description_marks: "\<exists>t. desc_text (set_description h) = Some t \<and> sublist marker t"
proof -
  let ?P = "\<lambda>c. tag c = lit ''description''"
  show ?thesis
  proof (cases "index_of ?P (children h)")
    case None
    then have "find ?P (children h) = None" by (simp add: find_index_of)
    then have "desc_text (set_description h) = Some marker"
      using None by (simp add: set_description_def desc_text_def find_child_def find_append_case)
    then show ?thesis by auto
  next
    case (Some i)
    let ?d = "children h ! i"
    let ?od = "case etext ?d of None \<Rightarrow> [] | Some t \<Rightarrow> if t = [] then [] else strip t"
    from index_of_SomeD [OF Some] have il: "i < length (children h)" and pd: "?P ?d"
      and before: "\<forall>x\<in>set (take i (children h)). \<not> ?P x" by simp_all
    have fd: "find ?P (children h) = Some ?d" using Some by (simp add: find_index_of)
    show ?thesis
    proof (cases "sublist marker ?od")
      case True
      then have same: "set_description h = h" using Some by (simp add: set_description_def Let_def)
      from True marker_ends(1) obtain t where t: "etext ?d = Some t" and "t \<noteq> []"
        and "sublist marker (strip t)"
        by (cases "etext ?d") (auto split: if_splits)
      then have "sublist marker t" by (simp add: marker_in_strip)
      moreover have "desc_text h = Some t" using fd t by (simp add: desc_text_def find_child_def)
      ultimately show ?thesis using same by simp
    next
      case False
      let ?new = "strip (?od @ lit '' (GeminiAKNF)'')"
      let ?cs = "(children h)[i := set_etext (Some ?new) ?d]"
      have sd: "set_description h = set_children ?cs h"
        using Some False by (simp add: set_description_def Let_def)
      have "index_of ?P ?cs = Some i"
      proof -
        have "?cs = take i (children h) @ set_etext (Some ?new) ?d # drop (Suc i) (children h)"
          using il by (rule upd_conv_take_nth_drop)
        moreover have "length (take i (children h)) = i" using il by simp
        ultimately show ?thesis using index_of_first [of "take i (children h)" ?P
              "set_etext (Some ?new) ?d" "drop (Suc i) (children h)"] before pd
          by simp
      qed
      then have "find ?P ?cs = Some (?cs ! i)" by (simp add: find_index_of)
      then have "desc_text (set_description h) = Some ?new"
        using il by (simp add: sd desc_text_def find_child_def)
      moreover have "sublist marker (?od @ lit '' (GeminiAKNF)'')"
        unfolding sublist_def marker_def by (rule exI [of _ "?od @ lit '' ''"]) simp
      then have "sublist marker ?new" by (simp add: marker_in_strip)
      ultimately show ?thesis by blast
    qed
  qed
qed

text \<open>
  Claim C3. When the description field of a header already contains the marker, the
  header mutation leaves the description text as it is; and for every header the
  description text after two mutations is the one after the first, which contains the
  marker.
\<close>

theorem description_marker_idempotent:
  "(desc_text h = Some t \<and> sublist marker t \<longrightarrow> desc_text (mutate_header h) = Some t) \<and>
   desc_text (mutate_header (mutate_header h)) = desc_text (mutate_header h) \<and>
   (\<exists>t'. desc_text (mutate_header h) = Some t' \<and> sublist marker t')"
proof (intro conjI impI)
  assume "desc_text h = Some t \<and> sublist marker t"
  then show "desc_text (mutate_header h) = Some t"
    by (simp add: desc_text_mutate_header set_description_marked)
next
  obtain t' where t': "desc_text (mutate_header h) = Some t'" and m: "sublist marker t'"
    using set_description_marks [of h] by (auto simp: desc_text_mutate_header)
  then have "set_description (mutate_header h) = mutate_header h" by (rule set_description_marked)
  then show "desc_text (mutate_header (mutate_header h)) = desc_text (mutate_header h)"
    by (simp add: desc_text_mutate_header)
  from t' m show "\<exists>t'. desc_text (mutate_header h) = Some t' \<and> sublist marker t'" by blast
qed


definition hdr_marked :: element where
  "hdr_marked = Element (lit ''header'') [] None
     [Element (lit ''name'') [] (Some (lit ''Nintendo - Game Boy'')) [] None,
      Element (lit ''description'') [] (Some (lit ''Game Boy (GeminiAKNF)'')) [] None] None"

definition hdr_plain :: element where
  "hdr_plain = Element (lit ''header'') [] None
     [Element (lit ''name'') [] (Some (lit ''Nintendo - Game Boy'')) [] None,
      Element (lit ''description'') [] (Some (lit ''Game Boy'')) [] None] None"

theorem description_marker_idempotent_witness:
  "desc_text hdr_marked = Some (lit ''Game Boy (GeminiAKNF)'') \<and>
   sublist marker (lit ''Game Boy (GeminiAKNF)'') \<and>
   desc_text (mutate_header hdr_marked) = Some (lit ''Game Boy (GeminiAKNF)'') \<and>
   desc_text (mutate_header hdr_plain) = Some (lit ''Game Boy (GeminiAKNF)'') \<and>
   desc_text (mutate_header (mutate_header hdr_plain)) = Some (lit ''Game Boy (GeminiAKNF)'')"
proof -
  have d: "desc_text hdr_marked = Some (lit ''Game Boy (GeminiAKNF)'')"
    by (simp add: desc_text_def find_child_def hdr_marked_def)
  have m: "sublist marker (lit ''Game Boy (GeminiAKNF)'')"
    unfolding sublist_def by (rule exI [of _ "lit ''Game Boy ''"], rule exI [of _ "[]"]) (simp add: marker_def)
  have 1: "desc_text (mutate_header hdr_marked) = Some (lit ''Game Boy (GeminiAKNF)'')"
    using description_marker_idempotent [of hdr_marked "lit ''Game Boy (GeminiAKNF)''"] d m by blast
  have 2: "desc_text (mutate_header hdr_plain) = Some (lit ''Game Boy (GeminiAKNF)'')"
    unfolding desc_text_mutate_header
    by (simp add: set_description_def hdr_plain_def desc_text_def
        find_child_def marker_def sublist_code strip_def lstrip_def rstrip_def is_space_def
        set_children_def set_etext_def)
  have 3: "desc_text (mutate_header (mutate_header hdr_plain)) = Some (lit ''Game Boy (GeminiAKNF)'')"
    using description_marker_idempotent [of hdr_plain] 2 by simp
  from d m 1 2 3 show ?thesis by blast
qed

subsection \<open>The provenance tag\<close>

lemma remove_existing_none:
  "\<forall>x\<in>set (children h). tag x \<noteq> lit ''geminiaknf'' \<Longrightarrow> remove_existing h = h"
proof -
  assume "\<forall>x\<in>set (children h). tag x \<noteq> lit ''geminiaknf''"
  then have "index_of (\<lambda>c. tag c = lit ''geminiaknf'') (children h) = None"
    by (simp add: index_of_None)
  then show ?thesis by (simp add: remove_existing_def)
qed

lemma remove_existing_first:
  assumes "children h = pre @ g # post" and "tag g = lit ''geminiaknf''"
    and "\<forall>x\<in>set pre. tag x \<noteq> lit ''geminiaknf''"
  shows "children (remove_existing h) = pre @ post"
proof -
  have "index_of (\<lambda>c. tag c = lit ''geminiaknf'') (pre @ g # post) = Some (length pre)"
    using assms(2,3) by (intro index_of_first) simp_all
  then show ?thesis using assms(1) by (simp add: remove_existing_def)
qed

lemma insert_aknf_retool:
  assumes "children h = pre @ r # post" and "tag r = lit ''retool''"
    and "\<forall>x\<in>set pre. tag x \<noteq> lit ''retool''"
  shows "children (insert_aknf h) = pre @ r # aknf_tag # post"
proof -
  have "index_of (\<lambda>c. tag c = lit ''retool'') (pre @ r # post) = Some (length pre)"
    using assms(2,3) by (intro index_of_first) simp_all
  then have "insert_index h = length pre + 1" using assms(1) by (simp add: insert_index_def)
  then show ?thesis using assms(1) by (simp add: insert_aknf_def Let_def)
qed

lemma insert_aknf_clrmamepro:
  assumes "\<forall>x\<in>set (children h). tag x \<noteq> lit ''retool''"
    and "children h = pre @ c # post" and "tag c = lit ''clrmamepro''"
    and "\<forall>x\<in>set pre. tag x \<noteq> lit ''clrmamepro''"
  shows "children (insert_aknf h) = pre @ aknf_tag # c # post"
proof -
  have "index_of (\<lambda>c. tag c = lit ''retool'') (children h) = None"
    using assms(1) by (simp add: index_of_None)
  moreover have "index_of (\<lambda>c. tag c = lit ''clrmamepro'') (pre @ c # post) = Some (length pre)"
    using assms(3,4) by (intro index_of_first) simp_all
  ultimately have "insert_index h = length pre" using assms(2) by (simp add: insert_index_def)
  then show ?thesis using assms(2) by (simp add: insert_aknf_def Let_def)
qed

lemma insert_aknf_end:
  assumes "\<forall>x\<in>set (children h). tag x \<noteq> lit ''retool'' \<and> tag x \<noteq> lit ''clrmamepro''"
  shows "children (insert_aknf h) = children h @ [aknf_tag]"
proof -
  have "index_of (\<lambda>c. tag c = lit ''retool'') (children h) = None"
    and "index_of (\<lambda>c. tag c = lit ''clrmamepro'') (children h) = None"
    using assms by (simp_all add: index_of_None)
  then have "insert_index h = length (children h)" by (simp add: insert_index_def)
  then show ?thesis by (simp add: insert_aknf_def Let_def)
qed

lemma filter_update_other:
  assumes "i < length xs" and "\<not> P (xs ! i)" and "\<not> P y"
  shows "filter P (xs[i := y]) = filter P xs"
proof -
  have "xs[i := y] = take i xs @ y # drop (Suc i) xs" using assms(1) by (rule upd_conv_take_nth_drop)
  then have "filter P (xs[i := y]) = filter P (take i xs) @ filter P (drop (Suc i) xs)"
    using assms(3) by simp
  moreover have "xs = take i xs @ xs ! i # drop (Suc i) xs" using assms(1) by (rule id_take_nth_drop)
  then have "filter P xs = filter P (take i xs @ xs ! i # drop (Suc i) xs)" by simp
  then have "filter P xs = filter P (take i xs) @ filter P (drop (Suc i) xs)"
    using assms(2) by simp
  ultimately show ?thesis by simp
qed

text \<open>The description step neither adds nor removes a provenance tag.\<close>

lemma set_description_aknf:
  "filter (\<lambda>c. tag c = lit ''geminiaknf'') (children (set_description h)) =
   filter (\<lambda>c. tag c = lit ''geminiaknf'') (children h)"
proof (cases "index_of (\<lambda>c. tag c = lit ''description'') (children h)")
  case None
  then show ?thesis by (simp add: set_description_def)
next
  case (Some i)
  from index_of_SomeD [OF Some] have il: "i < length (children h)"
    and t: "tag (children h ! i) = lit ''description''" by simp_all
  from t have n: "\<not> tag (children h ! i) = lit ''geminiaknf''" by simp
  have "filter (\<lambda>c. tag c = lit ''geminiaknf'') ((children h)[i := set_etext x (children h ! i)]) =
        filter (\<lambda>c. tag c = lit ''geminiaknf'') (children h)" for x
    using il n by (intro filter_update_other) simp_all
  then show ?thesis using Some by (simp add: set_description_def Let_def)
qed

lemma remove_existing_clears:
  assumes "length (filter (\<lambda>c. tag c = lit ''geminiaknf'') (children h)) \<le> 1"
  shows "filter (\<lambda>c. tag c = lit ''geminiaknf'') (children (remove_existing h)) = []"
proof (cases "index_of (\<lambda>c. tag c = lit ''geminiaknf'') (children h)")
  case None
  then have "\<forall>x\<in>set (children h). tag x \<noteq> lit ''geminiaknf''" by (simp add: index_of_None)
  then show ?thesis using None by (simp add: remove_existing_def filter_empty_conv)
next
  case (Some i)
  let ?P = "\<lambda>c. tag c = lit ''geminiaknf''"
  from index_of_SomeD [OF Some] have il: "i < length (children h)" and p: "?P (children h ! i)"
    by simp_all
  have "children h = take i (children h) @ children h ! i # drop (Suc i) (children h)"
    using il by (rule id_take_nth_drop)
  then have "filter ?P (children h) =
      filter ?P (take i (children h) @ children h ! i # drop (Suc i) (children h))" by simp
  then have "filter ?P (children h) =
      filter ?P (take i (children h)) @ children h ! i # filter ?P (drop (Suc i) (children h))"
    using p by simp
  then have "length (filter ?P (take i (children h))) + length (filter ?P (drop (Suc i) (children h))) = 0"
    using assms by simp
  then show ?thesis using Some by (simp add: remove_existing_def)
qed

lemma insert_aknf_filter:
  assumes "filter (\<lambda>c. tag c = lit ''geminiaknf'') (children h) = []"
  shows "filter (\<lambda>c. tag c = lit ''geminiaknf'') (children (insert_aknf h)) = [aknf_tag]"
proof -
  let ?P = "\<lambda>c. tag c = lit ''geminiaknf''"
  let ?i = "insert_index h"
  have "filter ?P (take ?i (children h) @ drop ?i (children h)) = []" using assms by simp
  then have "filter ?P (take ?i (children h)) = []" and "filter ?P (drop ?i (children h)) = []"
    unfolding filter_append by simp_all
  moreover have "?P aknf_tag" by (simp add: aknf_tag_def)
  ultimately show ?thesis by (simp add: insert_aknf_def Let_def)
qed

text \<open>
  Claim C9, as the code has it. The mutation removes the first \<open>geminiaknf\<close> child, when
  there is one, from the header as the description step left it, and inserts one fresh
  tag: right after the first \<open>retool\<close> child when there is one; otherwise right before
  the first \<open>clrmamepro\<close> child when there is one; otherwise at the end. A header with
  at most one prior tag ends with exactly one provenance tag, the fresh one.
\<close>

theorem fresh_provenance_tag:
  "((\<forall>x\<in>set (children (set_description h)). tag x \<noteq> lit ''geminiaknf'') \<longrightarrow>
      children (remove_existing (set_description h)) = children (set_description h)) \<and>
   (children (set_description h) = pre @ g # post \<and> tag g = lit ''geminiaknf'' \<and>
    (\<forall>x\<in>set pre. tag x \<noteq> lit ''geminiaknf'') \<longrightarrow>
      children (remove_existing (set_description h)) = pre @ post) \<and>
   (children (remove_existing (set_description h)) = pre' @ r # post' \<and> tag r = lit ''retool'' \<and>
    (\<forall>x\<in>set pre'. tag x \<noteq> lit ''retool'') \<longrightarrow>
      children (mutate_header h) = pre' @ r # aknf_tag # post') \<and>
   ((\<forall>x\<in>set (children (remove_existing (set_description h))). tag x \<noteq> lit ''retool'') \<and>
    children (remove_existing (set_description h)) = pre' @ c # post' \<and> tag c = lit ''clrmamepro'' \<and>
    (\<forall>x\<in>set pre'. tag x \<noteq> lit ''clrmamepro'') \<longrightarrow>
      children (mutate_header h) = pre' @ aknf_tag # c # post') \<and>
   ((\<forall>x\<in>set (children (remove_existing (set_description h))).
        tag x \<noteq> lit ''retool'' \<and> tag x \<noteq> lit ''clrmamepro'') \<longrightarrow>
      children (mutate_header h) = children (remove_existing (set_description h)) @ [aknf_tag]) \<and>
   length (children (mutate_header h)) = length (children (remove_existing (set_description h))) + 1 \<and>
   (length (filter (\<lambda>c. tag c = lit ''geminiaknf'') (children h)) \<le> 1 \<longrightarrow>
      filter (\<lambda>c. tag c = lit ''geminiaknf'') (children (mutate_header h)) = [aknf_tag])"
proof (intro conjI impI)
  assume "\<forall>x\<in>set (children (set_description h)). tag x \<noteq> lit ''geminiaknf''"
  then show "children (remove_existing (set_description h)) = children (set_description h)"
    by (simp add: remove_existing_none)
next
  assume "children (set_description h) = pre @ g # post \<and> tag g = lit ''geminiaknf'' \<and>
    (\<forall>x\<in>set pre. tag x \<noteq> lit ''geminiaknf'')"
  then show "children (remove_existing (set_description h)) = pre @ post"
    by (intro remove_existing_first [of _ _ g]) simp_all
next
  assume "children (remove_existing (set_description h)) = pre' @ r # post' \<and> tag r = lit ''retool'' \<and>
    (\<forall>x\<in>set pre'. tag x \<noteq> lit ''retool'')"
  then show "children (mutate_header h) = pre' @ r # aknf_tag # post'"
    unfolding mutate_header_def by (intro insert_aknf_retool) simp_all
next
  assume "(\<forall>x\<in>set (children (remove_existing (set_description h))). tag x \<noteq> lit ''retool'') \<and>
    children (remove_existing (set_description h)) = pre' @ c # post' \<and> tag c = lit ''clrmamepro'' \<and>
    (\<forall>x\<in>set pre'. tag x \<noteq> lit ''clrmamepro'')"
  then show "children (mutate_header h) = pre' @ aknf_tag # c # post'"
    unfolding mutate_header_def by (intro insert_aknf_clrmamepro) simp_all
next
  assume "\<forall>x\<in>set (children (remove_existing (set_description h))).
        tag x \<noteq> lit ''retool'' \<and> tag x \<noteq> lit ''clrmamepro''"
  then show "children (mutate_header h) = children (remove_existing (set_description h)) @ [aknf_tag]"
    unfolding mutate_header_def by (rule insert_aknf_end)
next
  show "length (children (mutate_header h)) = length (children (remove_existing (set_description h))) + 1"
    by (simp add: mutate_header_def insert_aknf_def Let_def)
next
  assume "length (filter (\<lambda>c. tag c = lit ''geminiaknf'') (children h)) \<le> 1"
  then have "length (filter (\<lambda>c. tag c = lit ''geminiaknf'') (children (set_description h))) \<le> 1"
    by (simp only: set_description_aknf)
  then have "filter (\<lambda>c. tag c = lit ''geminiaknf'') (children (remove_existing (set_description h))) = []"
    by (rule remove_existing_clears)
  then show "filter (\<lambda>c. tag c = lit ''geminiaknf'') (children (mutate_header h)) = [aknf_tag]"
    unfolding mutate_header_def by (rule insert_aknf_filter)
qed


definition name_el :: element where
  "name_el = Element (lit ''name'') [] (Some (lit ''Nintendo - Game Boy'')) [] None"

definition desc_el :: element where
  "desc_el = Element (lit ''description'') [] (Some (lit ''Game Boy (GeminiAKNF)'')) [] None"

definition retool_el :: element where
  "retool_el = Element (lit ''retool'') [] (Some (lit ''2.0'')) [] None"

definition clrmamepro_el :: element where
  "clrmamepro_el = Element (lit ''clrmamepro'') [(lit ''forcenodump'', lit ''required'')] None [] None"

definition old_tag :: element where
  "old_tag = Element (lit ''geminiaknf'') [] (Some (lit ''Created by Gemini AKNF ver. 1.0.14'')) [] None"

definition older_tag :: element where
  "older_tag = Element (lit ''geminiaknf'') [] (Some (lit ''Created by Gemini AKNF ver. 1.0.13'')) [] None"

definition hdr_of :: "element list \<Rightarrow> element" where
  "hdr_of cs = Element (lit ''header'') [] None cs None"

lemma desc_el_kept: "set_description (hdr_of (name_el # desc_el # cs)) = hdr_of (name_el # desc_el # cs)"
proof (rule set_description_marked)
  show "desc_text (hdr_of (name_el # desc_el # cs)) = Some (lit ''Game Boy (GeminiAKNF)'')"
    by (simp add: desc_text_def find_child_def hdr_of_def name_el_def desc_el_def)
  show "sublist marker (lit ''Game Boy (GeminiAKNF)'')"
    unfolding sublist_def by (rule exI [of _ "lit ''Game Boy ''"], rule exI [of _ "[]"]) (simp add: marker_def)
qed

lemma example_tags:
  "tag name_el = lit ''name''" "tag desc_el = lit ''description''" "tag retool_el = lit ''retool''"
  "tag clrmamepro_el = lit ''clrmamepro''" "tag old_tag = lit ''geminiaknf''"
  "tag older_tag = lit ''geminiaknf''"
  by (simp_all add: name_el_def desc_el_def retool_el_def clrmamepro_el_def old_tag_def older_tag_def)

theorem fresh_provenance_tag_witness:
  "children (mutate_header (hdr_of [name_el, desc_el, retool_el, old_tag, clrmamepro_el])) =
     [name_el, desc_el, retool_el, aknf_tag, clrmamepro_el] \<and>
   filter (\<lambda>c. tag c = lit ''geminiaknf'')
     (children (mutate_header (hdr_of [name_el, desc_el, retool_el, old_tag, clrmamepro_el]))) = [aknf_tag] \<and>
   children (mutate_header (hdr_of [name_el, desc_el, clrmamepro_el])) =
     [name_el, desc_el, aknf_tag, clrmamepro_el] \<and>
   children (mutate_header (hdr_of [name_el, desc_el])) = [name_el, desc_el, aknf_tag]"
proof -
  let ?h1 = "hdr_of [name_el, desc_el, retool_el, old_tag, clrmamepro_el]"
  let ?h2 = "hdr_of [name_el, desc_el, clrmamepro_el]"
  let ?h3 = "hdr_of [name_el, desc_el]"
  have c: "children (hdr_of cs) = cs" for cs by (simp add: hdr_of_def)
  note t1 = fresh_provenance_tag [of ?h1 "[name_el, desc_el, retool_el]" old_tag "[clrmamepro_el]"
      "[name_el, desc_el]" retool_el "[clrmamepro_el]" clrmamepro_el]
  have "children (set_description ?h1) = [name_el, desc_el, retool_el] @ old_tag # [clrmamepro_el] \<and>
        tag old_tag = lit ''geminiaknf'' \<and>
        (\<forall>x\<in>set [name_el, desc_el, retool_el]. tag x \<noteq> lit ''geminiaknf'')"
    unfolding desc_el_kept c by (simp add: example_tags)
  with t1 have "children (remove_existing (set_description ?h1)) = [name_el, desc_el, retool_el] @ [clrmamepro_el]"
    by blast
  then have r1: "children (remove_existing (set_description ?h1)) = [name_el, desc_el] @ retool_el # [clrmamepro_el]"
    by simp
  have "tag retool_el = lit ''retool'' \<and> (\<forall>x\<in>set [name_el, desc_el]. tag x \<noteq> lit ''retool'')"
    by (simp add: example_tags)
  with t1 r1 have 1: "children (mutate_header ?h1) = [name_el, desc_el] @ retool_el # aknf_tag # [clrmamepro_el]"
    by blast
  have "length (filter (\<lambda>c. tag c = lit ''geminiaknf'') (children ?h1)) \<le> 1"
    unfolding c by (simp add: example_tags)
  with t1 have 2: "filter (\<lambda>c. tag c = lit ''geminiaknf'') (children (mutate_header ?h1)) = [aknf_tag]"
    by blast
  note t2 = fresh_provenance_tag [of ?h2 "[]" old_tag "[]" "[name_el, desc_el]" retool_el "[]" clrmamepro_el]
  have "\<forall>x\<in>set (children (set_description ?h2)). tag x \<noteq> lit ''geminiaknf''"
    unfolding desc_el_kept c by (simp add: example_tags)
  with t2 have "children (remove_existing (set_description ?h2)) = children (set_description ?h2)"
    by blast
  then have r2: "children (remove_existing (set_description ?h2)) = [name_el, desc_el] @ clrmamepro_el # []"
    unfolding desc_el_kept c by simp
  have "(\<forall>x\<in>set ([name_el, desc_el] @ clrmamepro_el # []). tag x \<noteq> lit ''retool'') \<and>
        tag clrmamepro_el = lit ''clrmamepro'' \<and>
        (\<forall>x\<in>set [name_el, desc_el]. tag x \<noteq> lit ''clrmamepro'')"
    by (simp add: example_tags)
  with t2 r2 have 3: "children (mutate_header ?h2) = [name_el, desc_el] @ aknf_tag # clrmamepro_el # []"
    by metis
  note t3 = fresh_provenance_tag [of ?h3 "[]" old_tag "[]" "[]" retool_el "[]" clrmamepro_el]
  have "\<forall>x\<in>set (children (set_description ?h3)). tag x \<noteq> lit ''geminiaknf''"
    unfolding desc_el_kept c by (simp add: example_tags)
  with t3 have "children (remove_existing (set_description ?h3)) = children (set_description ?h3)"
    by blast
  then have r3: "children (remove_existing (set_description ?h3)) = [name_el, desc_el]"
    unfolding desc_el_kept c by simp
  have "\<forall>x\<in>set [name_el, desc_el]. tag x \<noteq> lit ''retool'' \<and> tag x \<noteq> lit ''clrmamepro''"
    by (simp add: example_tags)
  with t3 r3 have 4: "children (mutate_header ?h3) = [name_el, desc_el] @ [aknf_tag]"
    by metis
  from 1 2 3 4 show ?thesis by simp
qed

text \<open>A header with two prior provenance tags keeps the second one.\<close>

theorem second_prior_tag_stays:
  "children (mutate_header (hdr_of [name_el, desc_el, old_tag, older_tag])) =
     [name_el, desc_el, older_tag, aknf_tag] \<and>
   tag older_tag = lit ''geminiaknf'' \<and> older_tag \<noteq> aknf_tag \<and>
   older_tag \<in> set (children (hdr_of [name_el, desc_el, old_tag, older_tag]))"
proof -
  let ?h = "hdr_of [name_el, desc_el, old_tag, older_tag]"
  have c: "children (hdr_of cs) = cs" for cs by (simp add: hdr_of_def)
  have "children (remove_existing (set_description ?h)) = [name_el, desc_el, older_tag]"
    unfolding desc_el_kept
    by (simp add: remove_existing_def hdr_of_def name_el_def desc_el_def old_tag_def older_tag_def
        set_children_def)
  then have "children (mutate_header ?h) = [name_el, desc_el, older_tag, aknf_tag]"
    unfolding mutate_header_def
    by (simp add: insert_aknf_def insert_index_def Let_def name_el_def desc_el_def older_tag_def)
  moreover have "older_tag \<noteq> aknf_tag"
    by (simp add: older_tag_def aknf_tag_def SCRIPT_VERSION_def)
  ultimately show ?thesis by (simp add: c example_tags)
qed

section \<open>call_gemini_api\<close>

text \<open>
  What \<open>model.generate_content\<close> did: it raised, or it returned a response with its text
  (None when there is none) and the block reason of its prompt feedback.
\<close>

datatype api_outcome = Raised | Response "pystr option" "pystr option"

definition fence :: pystr where
  "fence = lit ''```''"

text \<open>\<open>re.sub(r"^```xml\s*", "", s, flags=re.IGNORECASE)\<close>\<close>

definition drop_fence_xml :: "pystr \<Rightarrow> pystr" where
  "drop_fence_xml s =
     (case drop 3 s of
        x # m # l # rest \<Rightarrow>
          if take 3 s = fence \<and> (x = 120 \<or> x = 88) \<and> (m = 109 \<or> m = 77) \<and> (l = 108 \<or> l = 76)
          then dropWhile is_space rest else s
      | _ \<Rightarrow> s)"

text \<open>\<open>re.sub(r"^```\s*", "", s)\<close>\<close>

definition drop_fence :: "pystr \<Rightarrow> pystr" where
  "drop_fence s = (if prefix fence s then dropWhile is_space (drop 3 s) else s)"

text \<open>
  \<open>re.sub(r"\s*```$", "", s)\<close>. A match at a position takes the run of white space
  there and the fence, and must end at the end of the text or before its last newline;
  in the second case the newline stays.
\<close>

fun sub_fence_end :: "pystr \<Rightarrow> pystr" where
  "sub_fence_end [] = []"
| "sub_fence_end (c # cs) =
     (if dropWhile is_space (c # cs) = fence then []
      else if dropWhile is_space (c # cs) = fence @ [10] then [10]
      else c # sub_fence_end cs)"

definition normalize_response :: "pystr \<Rightarrow> pystr" where
  "normalize_response response_text =
     strip (sub_fence_end (drop_fence (drop_fence_xml (strip response_text))))"

definition invalid_file :: pystr where
  "invalid_file = lit ''invalid_ai_response_start.xml''"

text \<open>
  \<open>generate_content prompt k\<close> is the outcome of request number \<open>k\<close> to the API and
  \<open>can_write\<close> tells whether a file can be written. The function sends one request.
\<close>

definition call_gemini_api ::
  "(pystr \<Rightarrow> nat \<Rightarrow> api_outcome) \<Rightarrow> (pystr \<Rightarrow> bool) \<Rightarrow> pystr \<Rightarrow> world \<Rightarrow> pystr option \<times> world" where
  "call_gemini_api generate_content can_write prompt_text w =
     (let w1 = w\<lparr>api_calls := api_calls w + 1\<rparr>
      in case generate_content prompt_text (api_calls w) of
           Raised \<Rightarrow> (None, say [ApiFailed] w1)
         | Response None reason \<Rightarrow> (None, say [ApiNoText reason] w1)
         | Response (Some response_text) reason \<Rightarrow>
             if response_text = [] then (None, say [ApiNoText reason] w1)
             else
               (let text_response = normalize_response response_text;
                    w2 = say [ApiReceived] w1
                in if \<not> (prefix (lit ''<?xml'') text_response \<or> prefix (lit ''<datafile>'') text_response)
                   then
                     (let w3 = say [InvalidStart (take 500 text_response)] w2
                      in (None,
                          if can_write invalid_file
                          then say [SavedInvalidResponse]
                                 (w3\<lparr>files := (files w3)(invalid_file \<mapsto> text_response)\<rparr>)
                          else say [CannotSaveInvalidResponse] w3))
                   else (Some text_response, w2)))"

text \<open>
  Claim C5, as the code has it. The response text is trimmed, freed of a leading and a
  trailing code fence and trimmed again. When the result starts with neither \<open><?xml\<close>
  nor \<open><datafile>\<close>, the function returns None after its single request; the text it
  writes to \<open>invalid_ai_response_start.xml\<close> is the normalised one, and when the file
  cannot be written it only reports that and leaves the files as they were.
\<close>

theorem invalid_start_is_failure:
  "generate_content prompt (api_calls w) = Response (Some t) reason \<and> t \<noteq> [] \<and>
   \<not> prefix (lit ''<?xml'') (normalize_response t) \<and>
   \<not> prefix (lit ''<datafile>'') (normalize_response t) \<longrightarrow>
   fst (call_gemini_api generate_content can_write prompt w) = None \<and>
   api_calls (snd (call_gemini_api generate_content can_write prompt w)) = api_calls w + 1 \<and>
   (can_write invalid_file \<longrightarrow>
      files (snd (call_gemini_api generate_content can_write prompt w)) =
        (files w)(invalid_file \<mapsto> normalize_response t)) \<and>
   (\<not> can_write invalid_file \<longrightarrow>
      files (snd (call_gemini_api generate_content can_write prompt w)) = files w \<and>
      CannotSaveInvalidResponse \<in> set (console (snd (call_gemini_api generate_content can_write prompt w))))"
  by (simp add: call_gemini_api_def Let_def say_def)

definition fenced_hello :: pystr where
  "fenced_hello = lit ''```xml'' @ [10] @ lit ''hello'' @ [10] @ lit ''```''"

lemma normalize_fenced_hello: "normalize_response fenced_hello = lit ''hello''"
  by (simp add: normalize_response_def fenced_hello_def drop_fence_xml_def drop_fence_def fence_def
      strip_def lstrip_def rstrip_def is_space_def)

theorem invalid_start_is_failure_witness:
  "fst (call_gemini_api (\<lambda>p k. Response (Some fenced_hello) None) (\<lambda>f. True) (lit ''prompt'') world0) = None \<and>
   api_calls (snd (call_gemini_api (\<lambda>p k. Response (Some fenced_hello) None) (\<lambda>f. True) (lit ''prompt'') world0)) = 1 \<and>
   files (snd (call_gemini_api (\<lambda>p k. Response (Some fenced_hello) None) (\<lambda>f. True) (lit ''prompt'') world0)) =
     [invalid_file \<mapsto> lit ''hello''] \<and>
   files (snd (call_gemini_api (\<lambda>p k. Response (Some fenced_hello) None) (\<lambda>f. False) (lit ''prompt'') world0)) =
     Map.empty"
proof -
  have n: "fenced_hello \<noteq> []" by (simp add: fenced_hello_def)
  have p: "\<not> prefix (lit ''<?xml'') (normalize_response fenced_hello)"
    and q: "\<not> prefix (lit ''<datafile>'') (normalize_response fenced_hello)"
    unfolding normalize_fenced_hello by simp_all
  note t = invalid_start_is_failure [of "\<lambda>p k. Response (Some fenced_hello) None" "lit ''prompt''"
      world0 fenced_hello None "\<lambda>f. True"]
  note f = invalid_start_is_failure [of "\<lambda>p k. Response (Some fenced_hello) None" "lit ''prompt''"
      world0 fenced_hello None "\<lambda>f. False"]
  from t n p q f show ?thesis
    unfolding normalize_fenced_hello by (simp add: world0_def)
qed

text \<open>The file gets the normalised text, which is not the response as it came.\<close>

theorem invalid_response_file_not_raw:
  "files (snd (call_gemini_api (\<lambda>p k. Response (Some fenced_hello) None) (\<lambda>f. True) (lit ''prompt'') world0))
     invalid_file = Some (lit ''hello'') \<and>
   lit ''hello'' \<noteq> fenced_hello"
  by (simp add: call_gemini_api_def Let_def say_def normalize_fenced_hello world0_def)
     (simp add: fenced_hello_def)

section \<open>sanitize_filename\<close>

text \<open>
  The number of bytes of a code point in \<open>s.encode('utf-8', 'ignore')\<close>: a surrogate
  cannot be encoded and is left out.
\<close>

definition cp_bytes :: "nat \<Rightarrow> nat" where
  "cp_bytes c =
     (if c < 128 then 1
      else if c < 2048 then 2
      else if 55296 \<le> c \<and> c \<le> 57343 then 0
      else if c < 65536 then 3
      else 4)"

definition utf8_len :: "pystr \<Rightarrow> nat" where
  "utf8_len s = sum_list (map cp_bytes s)"

text \<open>
  \<open>s.encode('utf-8', 'ignore')[:n].decode('utf-8', 'ignore')\<close> for a number \<open>n\<close> of
  bytes: the code points whose bytes are all among the first \<open>n\<close>; a code point that is
  cut is dropped by the decoder.
\<close>

fun take_bytes :: "nat \<Rightarrow> pystr \<Rightarrow> pystr" where
  "take_bytes n [] = []"
| "take_bytes n (c # cs) =
     (if cp_bytes c = 0 then take_bytes n cs
      else if cp_bytes c \<le> n then c # take_bytes (n - cp_bytes c) cs
      else [])"

text \<open>The number of bytes that the slice \<open>bytes[:cutoff]\<close> keeps of \<open>len\<close> bytes; a
  negative \<open>cutoff\<close> counts from the end.\<close>

definition slice_end :: "int \<Rightarrow> nat \<Rightarrow> nat" where
  "slice_end cutoff len =
     (if cutoff < 0 then nat (max 0 (int len + cutoff)) else min (nat cutoff) len)"

text \<open>\<open>p.rfind(c)\<close>\<close>

definition rfind :: "nat \<Rightarrow> pystr \<Rightarrow> nat option" where
  "rfind c p = (case dropWhile (\<lambda>x. x \<noteq> c) (rev p) of [] \<Rightarrow> None | _ # rest \<Rightarrow> Some (length rest))"

text \<open>
  \<open>os.path.splitext\<close> on a name without path separators, which is all it is given here:
  the extension starts at the last dot, unless only dots come before that dot.
\<close>

definition splitext :: "pystr \<Rightarrow> pystr \<times> pystr" where
  "splitext p =
     (case rfind 46 p of
        None \<Rightarrow> (p, [])
      | Some dotIndex \<Rightarrow>
          if \<exists>c\<in>set (take dotIndex p). c \<noteq> 46 then (take dotIndex p, drop dotIndex p)
          else (p, []))"

text \<open>
  \<open>str.upper\<close> and \<open>str.lower\<close> on the ASCII letters. A code point outside ASCII is
  left as it is: none becomes a letter of a reserved name or of \<open>.dat\<close>, so the two
  tests below do not see the difference.
\<close>

definition str_upper :: "pystr \<Rightarrow> pystr" where
  "str_upper s = map (\<lambda>c. if 97 \<le> c \<and> c \<le> 122 then c - 32 else c) s"

definition str_lower :: "pystr \<Rightarrow> pystr" where
  "str_lower s = map (\<lambda>c. if 65 \<le> c \<and> c \<le> 90 then c + 32 else c) s"

definition reserved_names :: "pystr list" where
  "reserved_names =
     [lit ''CON'', lit ''PRN'', lit ''AUX'', lit ''NUL'',
      lit ''COM1'', lit ''COM2'', lit ''COM3'', lit ''COM4'', lit ''COM5'', lit ''COM6'',
      lit ''COM7'', lit ''COM8'', lit ''COM9'',
      lit ''LPT1'', lit ''LPT2'', lit ''LPT3'', lit ''LPT4'', lit ''LPT5'', lit ''LPT6'',
      lit ''LPT7'', lit ''LPT8'', lit ''LPT9'']"

text \<open>The characters removed by \<open>[<>:"|?*]\<close> and by \<open>[\x00-\x1f\x7f]\<close>.\<close>

definition is_reserved_char :: "nat \<Rightarrow> bool" where
  "is_reserved_char c \<longleftrightarrow> c = 60 \<or> c = 62 \<or> c = 58 \<or> c = 34 \<or> c = 124 \<or> c = 63 \<or> c = 42"

definition is_control :: "nat \<Rightarrow> bool" where
  "is_control c \<longleftrightarrow> c \<le> 31 \<or> c = 127"

text \<open>\<open>re.sub(r'\s+', ' ', s)\<close>: every run of white space becomes one space.\<close>

function collapse_ws :: "pystr \<Rightarrow> pystr" where
  "collapse_ws [] = []"
| "collapse_ws (c # cs) =
     (if is_space c then 32 # collapse_ws (dropWhile is_space cs) else c # collapse_ws cs)"
  by pat_completeness auto
termination
  by (relation "measure length") (auto simp: less_Suc_eq_le length_dropWhile_le)

text \<open>\<open>s.rstrip('. ')\<close>\<close>

definition rstrip_dots :: "pystr \<Rightarrow> pystr" where
  "rstrip_dots s = rev (dropWhile (\<lambda>c. c = 46 \<or> c = 32) (rev s))"

text \<open>The name after the first five statements of the function.\<close>

definition clean_filename :: "pystr \<Rightarrow> pystr" where
  "clean_filename filename =
     rstrip_dots (strip (collapse_ws
       (filter (\<lambda>c. \<not> is_control c)
          (filter (\<lambda>c. \<not> is_reserved_char c)
             (map (\<lambda>c. if c = 47 \<or> c = 92 then 45 else c) filename)))))"

definition MAX_LEN_BYTES :: nat where
  "MAX_LEN_BYTES = 200"

definition truncate_filename :: "pystr \<Rightarrow> pystr" where
  "truncate_filename sanitized =
     (if utf8_len sanitized > MAX_LEN_BYTES
      then (let (name, ext) = splitext sanitized;
                cutoff = int MAX_LEN_BYTES - int (utf8_len ext) - 1
            in take_bytes (slice_end cutoff (utf8_len name)) name @ lit ''~'' @ ext)
      else sanitized)"

definition sanitize_filename :: "pystr \<Rightarrow> pystr" where
  "sanitize_filename filename =
     (let sanitized = truncate_filename (clean_filename filename);
          (name_part, ext) = splitext sanitized;
          sanitized' = (if str_upper name_part \<in> set reserved_names then lit ''_'' @ sanitized
                        else sanitized)
      in if sanitized' = [] \<or> str_lower sanitized' = lit ''.dat'' then lit ''Filtered_DAT_File.dat''
         else sanitized')"

lemmas sanitize_eval =
  sanitize_filename_def truncate_filename_def clean_filename_def rstrip_dots_def strip_def
  lstrip_def rstrip_def is_space_def is_control_def is_reserved_char_def str_upper_def
  str_lower_def reserved_names_def splitext_def rfind_def utf8_len_def cp_bytes_def
  MAX_LEN_BYTES_def slice_end_def Let_def

lemma sanitize_examples:
  "sanitize_filename (lit ''Sony - Play/Station: 2? (GeminiAKNF 1.0.15).dat'') =
     lit ''Sony - Play-Station 2 (GeminiAKNF 1.0.15).dat''"
  "sanitize_filename (lit ''con.dat'') = lit ''_con.dat''"
  "sanitize_filename (lit '' .DAT. '') = lit ''Filtered_DAT_File.dat''"
  by (simp_all add: sanitize_eval)

lemma splitext_examples:
  "splitext (lit ''..a.b.c'') = (lit ''..a.b'', lit ''.c'')"
  "splitext (lit ''...abc'') = (lit ''...abc'', [])"
  "splitext (lit ''abc'') = (lit ''abc'', [])"
  by (simp_all add: splitext_def rfind_def)

subsection \<open>Characters of the result\<close>

text \<open>A character that may appear in a sanitised name.\<close>

definition ok_char :: "nat \<Rightarrow> bool" where
  "ok_char c \<longleftrightarrow> \<not> is_reserved_char c \<and> c \<noteq> 47 \<and> c \<noteq> 92 \<and> \<not> is_control c"

lemma collapse_ws_set: "set (collapse_ws s) \<subseteq> insert 32 (set s)"
proof (induction s rule: collapse_ws.induct)
  case 1
  show ?case by simp
next
  case (2 c cs)
  show ?case
  proof (cases "is_space c")
    case True
    have "set (dropWhile is_space cs) \<subseteq> set cs" by (auto dest: set_dropWhileD)
    with 2(1) [OF True] True show ?thesis by auto
  next
    case False
    with 2(2) show ?thesis by auto
  qed
qed

lemma strip_set: "set (strip s) \<subseteq> set s"
  unfolding strip_def rstrip_def lstrip_def by (auto dest!: set_dropWhileD)

lemma rstrip_dots_set: "set (rstrip_dots s) \<subseteq> set s"
  unfolding rstrip_dots_def by (auto dest!: set_dropWhileD)

lemma clean_filename_ok: "c \<in> set (clean_filename f) \<Longrightarrow> ok_char c"
proof -
  let ?m = "map (\<lambda>c. if c = 47 \<or> c = 92 then 45 else c) f"
  let ?g = "filter (\<lambda>c. \<not> is_control c) (filter (\<lambda>c. \<not> is_reserved_char c) ?m)"
  assume "c \<in> set (clean_filename f)"
  then have "c \<in> set (strip (collapse_ws ?g))"
    unfolding clean_filename_def using rstrip_dots_set by blast
  then have "c \<in> set (collapse_ws ?g)" using strip_set by blast
  then have "c = 32 \<or> c \<in> set ?g" using collapse_ws_set by blast
  then show ?thesis
  proof
    assume "c = 32"
    then show ?thesis by (simp add: ok_char_def is_reserved_char_def is_control_def)
  next
    assume "c \<in> set ?g"
    then have "\<not> is_control c" and "\<not> is_reserved_char c" and "c \<in> set ?m" by simp_all
    moreover from \<open>c \<in> set ?m\<close> have "c \<noteq> 47 \<and> c \<noteq> 92" by (auto split: if_splits)
    ultimately show ?thesis by (simp add: ok_char_def)
  qed
qed

lemma take_bytes_set: "set (take_bytes n s) \<subseteq> set s"
  by (induction n s rule: take_bytes.induct) auto

subsection \<open>Splitting off the extension\<close>

lemma rfind_None: "rfind c p = None \<longleftrightarrow> c \<notin> set p"
proof (cases "dropWhile (\<lambda>x. x \<noteq> c) (rev p)")
  case Nil
  then have "c \<notin> set p" by (auto simp: dropWhile_eq_Nil_conv)
  moreover have "rfind c p = None" unfolding rfind_def Nil by simp
  ultimately show ?thesis by simp
next
  case (Cons x xs)
  then have "dropWhile (\<lambda>x. x \<noteq> c) (rev p) \<noteq> []" by simp
  then have "c \<in> set p" by (auto simp: dropWhile_eq_Nil_conv)
  moreover have "rfind c p \<noteq> None" unfolding rfind_def Cons by simp
  ultimately show ?thesis by simp
qed

lemma rfind_Some:
  assumes "rfind c p = Some d"
  shows "\<exists>tl. p = take d p @ c # tl \<and> c \<notin> set tl \<and> d < length p"
proof -
  let ?t = "takeWhile (\<lambda>x. x \<noteq> c) (rev p)"
  from assms obtain x rest where dw: "dropWhile (\<lambda>x. x \<noteq> c) (rev p) = x # rest" and d: "d = length rest"
    by (auto simp: rfind_def split: list.splits)
  have "dropWhile (\<lambda>x. x \<noteq> c) (rev p) \<noteq> []" using dw by simp
  from hd_dropWhile [OF this] dw have x: "x = c" by simp
  have "rev p = ?t @ dropWhile (\<lambda>x. x \<noteq> c) (rev p)" by simp
  then have "rev p = ?t @ c # rest" using dw x by simp
  then have "rev (rev p) = rev (?t @ c # rest)" by (rule arg_cong)
  then have p: "p = rev rest @ c # rev ?t" by simp
  have "take d (rev rest @ c # rev ?t) = rev rest" using d by simp
  then have tk: "take d p = rev rest" using p by simp
  have nt: "c \<notin> set (rev ?t)" by (auto dest: set_takeWhileD)
  have "length p = length rest + Suc (length ?t)" by (subst p) simp
  then have dl: "d < length p" using d by simp
  have "p = take d p @ c # rev ?t" unfolding tk by (rule p)
  with nt dl show ?thesis by blast
qed

lemma splitext_append: "fst (splitext p) @ snd (splitext p) = p"
  by (simp add: splitext_def split: option.splits)

lemma splitext_ext:
  "snd (splitext p) = [] \<or> (\<exists>tl. snd (splitext p) = 46 # tl \<and> 46 \<notin> set tl)"
proof (cases "rfind 46 p")
  case None
  then show ?thesis by (simp add: splitext_def)
next
  case (Some d)
  from rfind_Some [OF Some] obtain tl where p: "p = take d p @ 46 # tl" and tl: "46 \<notin> set tl"
    and d: "d < length p" by blast
  have "drop d p = drop d (take d p @ 46 # tl)" using p by simp
  also have "\<dots> = 46 # tl" using d by simp
  finally show ?thesis using Some tl by (simp add: splitext_def)
qed

lemma splitext_sets: "set (fst (splitext p)) \<subseteq> set p" "set (snd (splitext p)) \<subseteq> set p"
proof -
  have "set (fst (splitext p) @ snd (splitext p)) = set p" by (simp only: splitext_append)
  then show "set (fst (splitext p)) \<subseteq> set p" and "set (snd (splitext p)) \<subseteq> set p" by auto
qed

lemma truncate_filename_cases:
  "truncate_filename s = s \<and> utf8_len s \<le> MAX_LEN_BYTES \<or>
   utf8_len s > MAX_LEN_BYTES \<and>
   truncate_filename s =
     take_bytes (slice_end (int MAX_LEN_BYTES - int (utf8_len (snd (splitext s))) - 1)
                           (utf8_len (fst (splitext s))))
                (fst (splitext s)) @ lit ''~'' @ snd (splitext s)"
  by (simp add: truncate_filename_def Let_def split: prod.splits)

lemma truncate_filename_set: "set (truncate_filename s) \<subseteq> insert 126 (set s)"
proof (cases "truncate_filename s = s")
  case True
  then show ?thesis by auto
next
  case False
  then obtain n where t: "truncate_filename s = take_bytes n (fst (splitext s)) @ lit ''~'' @ snd (splitext s)"
    using truncate_filename_cases [of s] by blast
  have "set (take_bytes n (fst (splitext s))) \<subseteq> set s"
    using take_bytes_set [of n "fst (splitext s)"] splitext_sets(1) [of s] by blast
  then show ?thesis unfolding t using splitext_sets(2) [of s] by auto
qed

lemma truncate_filename_ok:
  assumes "c \<in> set (truncate_filename (clean_filename f))"
  shows "ok_char c"
proof -
  from assms truncate_filename_set have "c = 126 \<or> c \<in> set (clean_filename f)" by blast
  then show ?thesis
    using clean_filename_ok by (auto simp: ok_char_def is_reserved_char_def is_control_def)
qed

lemma sanitize_filename_cases:
  "sanitize_filename f = lit ''Filtered_DAT_File.dat'' \<or>
   sanitize_filename f = truncate_filename (clean_filename f) \<and> truncate_filename (clean_filename f) \<noteq> [] \<or>
   sanitize_filename f = lit ''_'' @ truncate_filename (clean_filename f)"
  by (simp add: sanitize_filename_def Let_def split: prod.splits)

lemma sanitize_filename_ok:
  assumes "c \<in> set (sanitize_filename f)"
  shows "ok_char c"
proof -
  have lit_ok: "\<forall>c\<in>set (lit ''Filtered_DAT_File.dat''). ok_char c"
    by (simp add: ok_char_def is_reserved_char_def is_control_def)
  have "ok_char 95" by (simp add: ok_char_def is_reserved_char_def is_control_def)
  with sanitize_filename_cases [of f] assms lit_ok truncate_filename_ok [of _ f]
  show ?thesis by auto
qed

subsection \<open>The end of the result\<close>

lemma rstrip_dots_last:
  "rstrip_dots s \<noteq> [] \<Longrightarrow> last (rstrip_dots s) \<noteq> 46 \<and> last (rstrip_dots s) \<noteq> 32"
proof -
  assume "rstrip_dots s \<noteq> []"
  then have n: "dropWhile (\<lambda>c. c = 46 \<or> c = 32) (rev s) \<noteq> []" by (simp add: rstrip_dots_def)
  have "last (rstrip_dots s) = hd (dropWhile (\<lambda>c. c = 46 \<or> c = 32) (rev s))"
    using n by (simp add: rstrip_dots_def last_rev)
  then show ?thesis using hd_dropWhile [OF n] by simp
qed

lemma truncate_filename_last:
  assumes "s \<noteq> [] \<longrightarrow> last s \<noteq> 46 \<and> last s \<noteq> 32" and "truncate_filename s \<noteq> []"
  shows "last (truncate_filename s) \<noteq> 46 \<and> last (truncate_filename s) \<noteq> 32"
proof (cases "truncate_filename s = s")
  case True
  then show ?thesis using assms by auto
next
  case False
  let ?ext = "snd (splitext s)"
  from False truncate_filename_cases [of s] obtain pre where t: "truncate_filename s = pre @ lit ''~'' @ ?ext"
    by blast
  show ?thesis
  proof (cases "?ext = []")
    case True
    then show ?thesis using t by simp
  next
    case ne: False
    have "last (fst (splitext s) @ ?ext) = last ?ext" using ne by simp
    then have "last s = last ?ext" by (simp only: splitext_append)
    moreover have "s \<noteq> []" using ne splitext_sets(2) [of s] by auto
    moreover have "last (truncate_filename s) = last ?ext" using t ne by simp
    ultimately show ?thesis using assms(1) by simp
  qed
qed

lemma sanitize_filename_last:
  "sanitize_filename f \<noteq> [] \<and> last (sanitize_filename f) \<noteq> 46 \<and> last (sanitize_filename f) \<noteq> 32"
proof -
  let ?t = "truncate_filename (clean_filename f)"
  have c: "clean_filename f \<noteq> [] \<longrightarrow> last (clean_filename f) \<noteq> 46 \<and> last (clean_filename f) \<noteq> 32"
    unfolding clean_filename_def using rstrip_dots_last by blast
  have t: "?t \<noteq> [] \<Longrightarrow> last ?t \<noteq> 46 \<and> last ?t \<noteq> 32"
    using truncate_filename_last [OF c] by blast
  consider "sanitize_filename f = lit ''Filtered_DAT_File.dat''"
    | "sanitize_filename f = ?t \<and> ?t \<noteq> []" | "sanitize_filename f = lit ''_'' @ ?t"
    using sanitize_filename_cases [of f] by blast
  then show ?thesis
  proof cases
    case 1
    then show ?thesis by simp
  next
    case 2
    then show ?thesis using t by simp
  next
    case 3
    then show ?thesis using t by (cases "?t = []") simp_all
  qed
qed

subsection \<open>The byte cap\<close>

lemma utf8_len_append: "utf8_len (a @ b) = utf8_len a + utf8_len b"
  by (simp add: utf8_len_def)

lemma take_bytes_len: "utf8_len (take_bytes n s) \<le> n"
  by (induction n s rule: take_bytes.induct) (auto simp: utf8_len_def)

lemma take_bytes_filter: "\<exists>k. take_bytes n s = filter (\<lambda>c. cp_bytes c \<noteq> 0) (take k s)"
proof (induction n s rule: take_bytes.induct)
  case (1 n)
  show ?case by simp
next
  case (2 n c cs)
  show ?case
  proof (cases "cp_bytes c = 0")
    case True
    with 2(1) obtain k where "take_bytes n cs = filter (\<lambda>c. cp_bytes c \<noteq> 0) (take k cs)" by blast
    then have "take_bytes n (c # cs) = filter (\<lambda>c. cp_bytes c \<noteq> 0) (take (Suc k) (c # cs))"
      using True by simp
    then show ?thesis by blast
  next
    case False
    show ?thesis
    proof (cases "cp_bytes c \<le> n")
      case le: True
      with 2(2) False obtain k where
        "take_bytes (n - cp_bytes c) cs = filter (\<lambda>c. cp_bytes c \<noteq> 0) (take k cs)" by blast
      then have "take_bytes n (c # cs) = filter (\<lambda>c. cp_bytes c \<noteq> 0) (take (Suc k) (c # cs))"
        using False le by simp
      then show ?thesis by blast
    next
      case gt: False
      then have "take_bytes n (c # cs) = filter (\<lambda>c. cp_bytes c \<noteq> 0) (take 0 (c # cs))"
        using False by simp
      then show ?thesis by blast
    qed
  qed
qed

lemma filter_eq_appendD:
  "filter P xs = np @ y # rest \<Longrightarrow> \<exists>a b. xs = a @ y # b \<and> filter P a = np"
proof (induction xs arbitrary: np)
  case Nil
  then show ?case by simp
next
  case (Cons z zs)
  show ?case
  proof (cases "P z")
    case False
    with Cons.prems have "filter P zs = np @ y # rest" by simp
    from Cons.IH [OF this] obtain a b where "zs = a @ y # b" and "filter P a = np" by blast
    then have "z # zs = (z # a) @ y # b \<and> filter P (z # a) = np" using False by simp
    then show ?thesis by blast
  next
    case True
    show ?thesis
    proof (cases np)
      case Nil
      with Cons.prems True have "z = y" by simp
      then have "z # zs = [] @ y # zs \<and> filter P [] = np" using Nil by simp
      then show ?thesis by blast
    next
      case (Cons n np')
      with Cons.prems True have "z = n" and "filter P zs = np' @ y # rest" by simp_all
      from Cons.IH [OF this(2)] obtain a b where "zs = a @ y # b" and "filter P a = np'" by blast
      then have "z # zs = (z # a) @ y # b \<and> filter P (z # a) = np"
        using True Cons \<open>z = n\<close> by simp
      then show ?thesis by blast
    qed
  qed
qed

text \<open>A name in which a dot comes after a character that is not a dot has an extension.\<close>

lemma splitext_has_ext:
  assumes "s = a @ 46 # b" and "x \<in> set a" and "x \<noteq> 46"
  shows "snd (splitext s) \<noteq> []"
proof -
  have "46 \<in> set s" using assms(1) by simp
  then obtain d where d: "rfind 46 s = Some d" using rfind_None [of 46 s] by auto
  from rfind_Some [OF d] obtain tl where s: "s = take d s @ 46 # tl" and tl: "46 \<notin> set tl"
    and dl: "d < length s" by blast
  have "a @ 46 # b = s" using assms(1) by simp
  also note s
  finally have "a @ 46 # b = take d s @ 46 # tl" .
  then obtain us where "a = take d s @ us \<and> us @ 46 # b = 46 # tl \<or> a @ us = take d s \<and> 46 # b = us @ 46 # tl"
    unfolding append_eq_append_conv2 by blast
  then have "\<exists>us. take d s = a @ us"
  proof
    assume h: "a = take d s @ us \<and> us @ 46 # b = 46 # tl"
    show ?thesis
    proof (cases us)
      case Nil
      with h show ?thesis by simp
    next
      case (Cons u us')
      with h have "us' @ 46 # b = tl" by simp
      then have "46 \<in> set tl" by auto
      with tl show ?thesis by simp
    qed
  next
    assume "a @ us = take d s \<and> 46 # b = us @ 46 # tl"
    then show ?thesis by metis
  qed
  then have "x \<in> set (take d s)" using assms(2) by auto
  then have "\<exists>c\<in>set (take d s). c \<noteq> 46" using assms(3) by blast
  then have "snd (splitext s) = drop d s" using d by (simp add: splitext_def)
  moreover have "drop d s \<noteq> []" using dl by simp
  ultimately show ?thesis by simp
qed

lemma reserved_names_chars:
  assumes "str_upper x \<in> set reserved_names"
  shows "x \<noteq> []" and "126 \<notin> set x" and "46 \<notin> set x"
proof -
  have r: "\<forall>r\<in>set reserved_names. r \<noteq> [] \<and> 126 \<notin> set r \<and> 46 \<notin> set r"
    by (simp add: reserved_names_def)
  with assms have u: "str_upper x \<noteq> [] \<and> 126 \<notin> set (str_upper x) \<and> 46 \<notin> set (str_upper x)"
    by blast
  then show "x \<noteq> []" by (auto simp: str_upper_def)
  show "126 \<notin> set x"
  proof
    assume "126 \<in> set x"
    then have "(\<lambda>c. if 97 \<le> c \<and> c \<le> 122 then c - 32 else c) 126 \<in> set (str_upper x)"
      unfolding str_upper_def set_map by (rule imageI)
    with u show False by simp
  qed
  show "46 \<notin> set x"
  proof
    assume "46 \<in> set x"
    then have "(\<lambda>c. if 97 \<le> c \<and> c \<le> 122 then c - 32 else c) 46 \<in> set (str_upper x)"
      unfolding str_upper_def set_map by (rule imageI)
    with u show False by simp
  qed
qed

text \<open>After a truncation the stem is not a reserved name.\<close>

lemma truncated_not_reserved:
  assumes t: "t = take_bytes n (fst (splitext s)) @ lit ''~'' @ snd (splitext s)"
  shows "str_upper (fst (splitext t)) \<notin> set reserved_names"
proof
  let ?name' = "take_bytes n (fst (splitext s))"
  let ?ext = "snd (splitext s)"
  let ?np = "fst (splitext t)"
  assume "str_upper ?np \<in> set reserved_names"
  from reserved_names_chars [OF this] have ne: "?np \<noteq> []" and n126: "126 \<notin> set ?np"
    and n46: "46 \<notin> set ?np" by simp_all
  have t126: "126 \<in> set t" using t by simp
  have t': "t = ?name' @ 126 # ?ext" using t by simp
  show False
  proof (cases "rfind 46 t")
    case None
    then have "?np = t" by (simp add: splitext_def)
    with n126 t126 show False by simp
  next
    case (Some d)
    from rfind_Some [OF Some] obtain tl where td: "t = take d t @ 46 # tl" and tl: "46 \<notin> set tl"
      and dl: "d < length t" by blast
    show False
    proof (cases "\<exists>c\<in>set (take d t). c \<noteq> 46")
      case False
      then have "?np = t" using Some by (simp add: splitext_def)
      with n126 t126 show False by simp
    next
      case True
      then have np: "?np = take d t" using Some by (simp add: splitext_def)
      have eq: "take d t @ 46 # tl = ?name' @ 126 # ?ext"
        by (rule trans [OF td [symmetric] t'])
      then obtain us where "take d t = ?name' @ us \<and> us @ 46 # tl = 126 # ?ext \<or>
          take d t @ us = ?name' \<and> 46 # tl = us @ 126 # ?ext"
        unfolding append_eq_append_conv2 by blast
      then obtain us where us: "take d t @ us = ?name'" and tlu: "46 # tl = us @ 126 # ?ext"
      proof
        assume h: "take d t = ?name' @ us \<and> us @ 46 # tl = 126 # ?ext"
        then have "us \<noteq> []" by auto
        then have "hd us = 126" using h by (cases us) auto
        then have "126 \<in> set (take d t)" using h \<open>us \<noteq> []\<close> by (cases us) auto
        with n126 np have False by simp
        then show ?thesis ..
      next
        assume "take d t @ us = ?name' \<and> 46 # tl = us @ 126 # ?ext"
        then show ?thesis using that by blast
      qed
      from tlu obtain us' where us': "us = 46 # us'" and "tl = us' @ 126 # ?ext"
        by (cases us) auto
      then have "46 \<notin> set ?ext" using tl by auto
      then have ext: "?ext = []" using splitext_ext [of s] by auto
      then have fs: "fst (splitext s) = s" using splitext_append [of s] by simp
      have name': "?name' = ?np @ 46 # us'" using us us' np by simp
      obtain k where "?name' = filter (\<lambda>c. cp_bytes c \<noteq> 0) (take k (fst (splitext s)))"
        using take_bytes_filter by blast
      then have "filter (\<lambda>c. cp_bytes c \<noteq> 0) (take k s) = ?np @ 46 # us'"
        using name' fs by simp
      from filter_eq_appendD [OF this] obtain a b where ks: "take k s = a @ 46 # b"
        and fa: "filter (\<lambda>c. cp_bytes c \<noteq> 0) a = ?np" by blast
      from ne obtain x where x: "x \<in> set ?np" by (cases ?np) auto
      then have "x \<noteq> 46" using n46 by auto
      moreover have "x \<in> set a" using x fa by (metis filter_is_subset subsetD)
      moreover have "s = a @ 46 # (b @ drop k s)"
        using ks append_take_drop_id [of k s] by (metis append_Cons append_assoc)
      ultimately have "snd (splitext s) \<noteq> []" using splitext_has_ext by blast
      with ext show False by simp
    qed
  qed
qed

lemma sanitize_filename_alt:
  "sanitize_filename f =
     (let s = truncate_filename (clean_filename f);
          s' = (if str_upper (fst (splitext s)) \<in> set reserved_names then lit ''_'' @ s else s)
      in if s' = [] \<or> str_lower s' = lit ''.dat'' then lit ''Filtered_DAT_File.dat'' else s')"
  by (simp add: sanitize_filename_def Let_def case_prod_beta)

lemma sanitize_filename_truncated:
  assumes "utf8_len (clean_filename f) > MAX_LEN_BYTES"
    and "utf8_len (snd (splitext (clean_filename f))) < MAX_LEN_BYTES"
  shows "sanitize_filename f =
           take_bytes (MAX_LEN_BYTES - 1 - utf8_len (snd (splitext (clean_filename f))))
                      (fst (splitext (clean_filename f)))
             @ lit ''~'' @ snd (splitext (clean_filename f))"
    and "utf8_len (sanitize_filename f) \<le> MAX_LEN_BYTES"
proof -
  let ?s = "clean_filename f"
  let ?name = "fst (splitext ?s)" and ?ext = "snd (splitext ?s)"
  let ?n = "MAX_LEN_BYTES - 1 - utf8_len ?ext"
  let ?t = "take_bytes ?n ?name @ lit ''~'' @ ?ext"
  have "utf8_len (?name @ ?ext) = utf8_len ?name + utf8_len ?ext" by (rule utf8_len_append)
  then have len: "utf8_len ?s = utf8_len ?name + utf8_len ?ext" by (simp only: splitext_append)
  have "slice_end (int MAX_LEN_BYTES - int (utf8_len ?ext) - 1) (utf8_len ?name) = ?n"
    using assms len by (simp add: slice_end_def MAX_LEN_BYTES_def)
  then have tr: "truncate_filename ?s = ?t"
    using assms(1) truncate_filename_cases [of ?s] by simp
  have nr: "str_upper (fst (splitext ?t)) \<notin> set reserved_names"
    by (rule truncated_not_reserved) simp
  have "126 \<in> set ?t" by simp
  then have "(\<lambda>c. if 65 \<le> c \<and> c \<le> 90 then c + 32 else c) 126 \<in> set (str_lower ?t)"
    unfolding str_lower_def set_map by (rule imageI)
  then have "126 \<in> set (str_lower ?t)" by simp
  then have nl: "str_lower ?t \<noteq> lit ''.dat''" by auto
  have "?t \<noteq> []" by simp
  then show eq: "sanitize_filename f = ?t"
    unfolding sanitize_filename_alt tr Let_def using nr nl by simp
  have "utf8_len ?t = utf8_len (take_bytes ?n ?name) + 1 + utf8_len ?ext"
    by (simp add: utf8_len_append) (simp add: utf8_len_def cp_bytes_def)
  also have "\<dots> \<le> ?n + 1 + utf8_len ?ext" using take_bytes_len [of ?n ?name] by simp
  also have "\<dots> = MAX_LEN_BYTES" using assms(2) by simp
  finally show "utf8_len (sanitize_filename f) \<le> MAX_LEN_BYTES" unfolding eq .
qed

lemma sanitize_filename_reserved:
  assumes "utf8_len (clean_filename f) \<le> MAX_LEN_BYTES"
    and "str_upper (fst (splitext (clean_filename f))) \<in> set reserved_names"
  shows "sanitize_filename f = lit ''_'' @ clean_filename f"
proof -
  have tr: "truncate_filename (clean_filename f) = clean_filename f"
    using assms(1) by (simp add: truncate_filename_def)
  have "str_lower (lit ''_'' @ clean_filename f) \<noteq> lit ''.dat''"
    by (simp add: str_lower_def)
  then show ?thesis
    unfolding sanitize_filename_alt tr Let_def using assms(2) by simp
qed

text \<open>
  Claim C6, as the code has it. The sanitised name is never empty, has none of the
  characters \<open>< > : " | ? *\<close>, no slash or backslash, no control character
  (\<open>U+0000\<close> to \<open>U+001F\<close>, \<open>U+007F\<close>) and does not end in a dot or a space. The cap of
  200 bytes is tested on the cleaned name, not on the candidate: when the cleaned name is
  longer than the cap and its extension is shorter than the cap, the result is the stem
  cut to fit, the marker \<open>~\<close> and the extension, and is within the cap. A cleaned name
  within the cap whose stem is a reserved device name, in any letter case, gets the
  prefix \<open>_\<close>.
\<close>

theorem sanitize_filename_safe:
  "(\<forall>c\<in>set (sanitize_filename f).
      \<not> is_reserved_char c \<and> c \<noteq> 47 \<and> c \<noteq> 92 \<and> \<not> is_control c) \<and>
   sanitize_filename f \<noteq> [] \<and>
   last (sanitize_filename f) \<noteq> 46 \<and> last (sanitize_filename f) \<noteq> 32 \<and>
   (utf8_len (clean_filename f) > MAX_LEN_BYTES \<and>
    utf8_len (snd (splitext (clean_filename f))) < MAX_LEN_BYTES \<longrightarrow>
      sanitize_filename f =
        take_bytes (MAX_LEN_BYTES - 1 - utf8_len (snd (splitext (clean_filename f))))
                   (fst (splitext (clean_filename f)))
          @ lit ''~'' @ snd (splitext (clean_filename f)) \<and>
      utf8_len (sanitize_filename f) \<le> MAX_LEN_BYTES) \<and>
   (utf8_len (clean_filename f) \<le> MAX_LEN_BYTES \<and>
    str_upper (fst (splitext (clean_filename f))) \<in> set reserved_names \<longrightarrow>
      sanitize_filename f = lit ''_'' @ clean_filename f)"
proof (intro conjI ballI impI)
  fix c assume "c \<in> set (sanitize_filename f)"
  then have "ok_char c" by (rule sanitize_filename_ok)
  then show "\<not> is_reserved_char c" and "c \<noteq> 47" and "c \<noteq> 92" and "\<not> is_control c"
    by (simp_all add: ok_char_def)
next
  show "sanitize_filename f \<noteq> []" and "last (sanitize_filename f) \<noteq> 46"
    and "last (sanitize_filename f) \<noteq> 32"
    using sanitize_filename_last [of f] by simp_all
next
  assume a: "utf8_len (clean_filename f) > MAX_LEN_BYTES \<and>
    utf8_len (snd (splitext (clean_filename f))) < MAX_LEN_BYTES"
  then show "sanitize_filename f =
        take_bytes (MAX_LEN_BYTES - 1 - utf8_len (snd (splitext (clean_filename f))))
                   (fst (splitext (clean_filename f)))
          @ lit ''~'' @ snd (splitext (clean_filename f))"
    by (intro sanitize_filename_truncated(1)) simp_all
  from a show "utf8_len (sanitize_filename f) \<le> MAX_LEN_BYTES"
    by (intro sanitize_filename_truncated(2)) simp_all
next
  assume "utf8_len (clean_filename f) \<le> MAX_LEN_BYTES \<and>
    str_upper (fst (splitext (clean_filename f))) \<in> set reserved_names"
  then show "sanitize_filename f = lit ''_'' @ clean_filename f"
    by (intro sanitize_filename_reserved) simp_all
qed

subsection \<open>Names made of one repeated letter\<close>

lemma collapse_ws_id: "\<forall>c\<in>set s. \<not> is_space c \<Longrightarrow> collapse_ws s = s"
  by (induction s) auto

lemma rstrip_dots_id: "s \<noteq> [] \<Longrightarrow> last s \<noteq> 46 \<Longrightarrow> last s \<noteq> 32 \<Longrightarrow> rstrip_dots s = s"
proof -
  assume a: "s \<noteq> []" "last s \<noteq> 46" "last s \<noteq> 32"
  then have "rev s \<noteq> []" and "\<not> (hd (rev s) = 46 \<or> hd (rev s) = 32)" by (simp_all add: hd_rev)
  then have "dropWhile (\<lambda>c. c = 46 \<or> c = 32) (rev s) = rev s" by (cases "rev s") auto
  then show ?thesis by (simp add: rstrip_dots_def)
qed

lemma utf8_len_replicate: "c < 128 \<Longrightarrow> utf8_len (replicate n c) = n"
  by (induction n) (simp_all add: utf8_len_def cp_bytes_def)

lemma take_bytes_replicate: "c < 128 \<Longrightarrow> take_bytes k (replicate n c) = replicate (min k n) c"
proof (induction n arbitrary: k)
  case 0
  show ?case by simp
next
  case (Suc n)
  then have b: "cp_bytes c = 1" by (simp add: cp_bytes_def)
  show ?case
  proof (cases k)
    case 0
    then show ?thesis using b by simp
  next
    case (Suc j)
    then show ?thesis using b Suc.IH [OF Suc.prems, of j] by simp
  qed
qed

lemma clean_filename_id:
  assumes "\<forall>c\<in>set s. ok_char c \<and> \<not> is_space c" and "s \<noteq> []" and "last s \<noteq> 46"
  shows "clean_filename s = s"
proof -
  have m: "map (\<lambda>c. if c = 47 \<or> c = 92 then 45 else c) s = s"
    using assms(1) by (intro map_idI) (auto simp: ok_char_def)
  have f1: "filter (\<lambda>c. \<not> is_reserved_char c) s = s"
    using assms(1) by (simp add: ok_char_def)
  have f2: "filter (\<lambda>c. \<not> is_control c) s = s"
    using assms(1) by (simp add: ok_char_def)
  have c: "collapse_ws s = s" using assms(1) by (intro collapse_ws_id) simp
  have "\<not> is_space (hd s)" and l: "\<not> is_space (last s)" using assms(1,2) by simp_all
  then have st: "strip s = s" using assms(2) by (intro strip_id)
  have "last s \<noteq> 32" using l by (auto simp: is_space_def)
  then have r: "rstrip_dots s = s" using assms(2,3) by (intro rstrip_dots_id)
  show ?thesis unfolding clean_filename_def m f1 f2 c st r ..
qed

lemma clean_filename_stars: "clean_filename (s @ lit '':*?'') = clean_filename s"
  by (simp add: clean_filename_def is_reserved_char_def)

lemma splitext_no_dot: "46 \<notin> set s \<Longrightarrow> splitext s = (s, [])"
  using rfind_None [of 46 s] by (simp add: splitext_def)

lemma reserved_names_length: "str_upper x \<in> set reserved_names \<Longrightarrow> length x \<le> 4"
proof -
  assume a: "str_upper x \<in> set reserved_names"
  have "\<forall>r\<in>set reserved_names. length r \<le> 4" by (simp add: reserved_names_def)
  with a have "length (str_upper x) \<le> 4" by blast
  then show ?thesis by (simp add: str_upper_def)
qed

lemma sanitize_filename_run:
  assumes "4 < n" and "n \<le> 200"
  shows "sanitize_filename (replicate n (97::nat) @ lit '':*?'') = replicate n (97::nat)"
proof -
  let ?s = "replicate n (97::nat)"
  have ok: "\<forall>c\<in>set ?s. ok_char c \<and> \<not> is_space c"
    by (simp add: ok_char_def is_reserved_char_def is_control_def is_space_def)
  have ne: "?s \<noteq> []" using assms(1) by auto
  have "last ?s = 97" using assms(1) by (intro last_replicate) simp
  then have "last ?s \<noteq> 46" by simp
  with ok ne have "clean_filename ?s = ?s" by (intro clean_filename_id)
  then have c: "clean_filename (?s @ lit '':*?'') = ?s" by (simp only: clean_filename_stars)
  have "utf8_len ?s = n" by (rule utf8_len_replicate) simp
  then have t: "truncate_filename ?s = ?s" using assms(2) by (simp add: truncate_filename_def MAX_LEN_BYTES_def)
  have sp: "splitext ?s = (?s, [])" by (rule splitext_no_dot) simp
  have nr: "str_upper ?s \<notin> set reserved_names"
    using reserved_names_length [of ?s] assms(1) by auto
  have "length (str_lower ?s) \<noteq> length (lit ''.dat'')" using assms(1) by (simp add: str_lower_def)
  then have nl: "str_lower ?s \<noteq> lit ''.dat''" by metis
  show ?thesis unfolding sanitize_filename_alt c t Let_def sp using nr nl ne by simp
qed

text \<open>A candidate above the cap whose cleaned form is below it gets no marker.\<close>

theorem cap_is_tested_after_cleaning:
  "utf8_len (replicate 199 (97::nat) @ lit '':*?'') = 202 \<and> MAX_LEN_BYTES = 200 \<and>
   sanitize_filename (replicate 199 (97::nat) @ lit '':*?'') = replicate 199 (97::nat) \<and>
   126 \<notin> set (replicate 199 (97::nat))"
proof -
  have "utf8_len (replicate 199 (97::nat) @ lit '':*?'') = utf8_len (replicate 199 (97::nat)) + utf8_len (lit '':*?'')"
    by (rule utf8_len_append)
  also have "utf8_len (replicate 199 (97::nat)) = 199" by (rule utf8_len_replicate) simp
  also have "utf8_len (lit '':*?'') = 3" by (simp add: utf8_len_def cp_bytes_def)
  finally have 1: "utf8_len (replicate 199 (97::nat) @ lit '':*?'') = 202" by simp
  have 2: "sanitize_filename (replicate 199 (97::nat) @ lit '':*?'') = replicate 199 (97::nat)"
    by (rule sanitize_filename_run) simp_all
  from 1 2 show ?thesis by (simp add: MAX_LEN_BYTES_def)
qed

lemma splitext_run_dat:
  assumes "0 < n"
  shows "splitext (replicate n (97::nat) @ lit ''.dat'') = (replicate n (97::nat), lit ''.dat'')"
proof -
  have "rev (replicate n (97::nat) @ lit ''.dat'') = [116, 97, 100] @ 46 # replicate n (97::nat)" by simp
  then have "dropWhile (\<lambda>x. x \<noteq> 46) (rev (replicate n (97::nat) @ lit ''.dat'')) = 46 # replicate n (97::nat)"
    by simp
  then have "rfind 46 (replicate n (97::nat) @ lit ''.dat'') = Some n" by (simp add: rfind_def)
  moreover have "\<exists>c\<in>set (take n (replicate n (97::nat) @ lit ''.dat'')). c \<noteq> 46" using assms by simp
  ultimately show ?thesis by (simp add: splitext_def)
qed

theorem sanitize_filename_safe_witness:
  "utf8_len (clean_filename (replicate 250 (97::nat) @ lit ''.dat'')) > MAX_LEN_BYTES \<and>
   sanitize_filename (replicate 250 (97::nat) @ lit ''.dat'') = replicate 195 (97::nat) @ lit ''~.dat'' \<and>
   utf8_len (sanitize_filename (replicate 250 (97::nat) @ lit ''.dat'')) \<le> MAX_LEN_BYTES \<and>
   str_upper (fst (splitext (clean_filename (lit ''con.dat'')))) \<in> set reserved_names \<and>
   sanitize_filename (lit ''con.dat'') = lit ''_con.dat''"
proof -
  let ?f = "replicate 250 (97::nat) @ lit ''.dat''"
  have ok: "\<forall>c\<in>set ?f. ok_char c \<and> \<not> is_space c"
    by (simp add: ok_char_def is_reserved_char_def is_control_def is_space_def)
  have c: "clean_filename ?f = ?f" using ok by (intro clean_filename_id) simp_all
  have sp: "splitext ?f = (replicate 250 (97::nat), lit ''.dat'')" by (rule splitext_run_dat) simp
  have "utf8_len ?f = utf8_len (replicate 250 (97::nat)) + utf8_len (lit ''.dat'')" by (rule utf8_len_append)
  also have "utf8_len (replicate 250 (97::nat)) = 250" by (rule utf8_len_replicate) simp
  also have e: "utf8_len (lit ''.dat'') = 4" by (simp add: utf8_len_def cp_bytes_def)
  finally have l: "utf8_len ?f = 254" by simp
  have tb: "take_bytes 195 (replicate 250 (97::nat)) = replicate 195 (97::nat)"
    using take_bytes_replicate [of 97 195 250] by simp
  note t = sanitize_filename_safe [of ?f]
  have h: "utf8_len (clean_filename ?f) > MAX_LEN_BYTES \<and>
    utf8_len (snd (splitext (clean_filename ?f))) < MAX_LEN_BYTES"
    unfolding c sp l using e by (simp add: MAX_LEN_BYTES_def)
  with t have "sanitize_filename ?f =
        take_bytes (MAX_LEN_BYTES - 1 - utf8_len (snd (splitext (clean_filename ?f))))
                   (fst (splitext (clean_filename ?f)))
          @ lit ''~'' @ snd (splitext (clean_filename ?f))"
    and 3: "utf8_len (sanitize_filename ?f) \<le> MAX_LEN_BYTES" by blast+
  then have 2: "sanitize_filename ?f = replicate 195 (97::nat) @ lit ''~.dat''"
    unfolding c sp using e tb by (simp add: MAX_LEN_BYTES_def)
  let ?g = "lit ''con.dat''"
  have cg: "clean_filename ?g = ?g"
    by (simp add: clean_filename_def rstrip_dots_def strip_def lstrip_def rstrip_def is_space_def
        is_control_def is_reserved_char_def)
  have spg: "splitext ?g = (lit ''con'', lit ''.dat'')" by (simp add: splitext_def rfind_def)
  have r: "str_upper (fst (splitext (clean_filename ?g))) \<in> set reserved_names"
    unfolding cg spg by (simp add: str_upper_def reserved_names_def)
  have "utf8_len (clean_filename ?g) \<le> MAX_LEN_BYTES"
    unfolding cg by (simp add: utf8_len_def cp_bytes_def MAX_LEN_BYTES_def)
  with sanitize_filename_safe [of ?g] r have "sanitize_filename ?g = lit ''_'' @ clean_filename ?g"
    by blast
  then have 5: "sanitize_filename ?g = lit ''_con.dat''" unfolding cg by simp
  from h 2 3 r 5 show ?thesis by blast
qed

lemma dropWhile_replicate_append: "P x \<Longrightarrow> dropWhile P (replicate n x @ ys) = dropWhile P ys"
  by (induction n) auto

text \<open>
  An extension of 200 bytes or more makes \<open>cutoff\<close> negative: the slice then counts from
  the end of the stem, and the result is longer than the cap.
\<close>

lemma long_extension_exceeds_cap:
  "sanitize_filename (lit ''a.'' @ replicate 300 (98::nat)) = lit ''~.'' @ replicate 300 (98::nat) \<and>
   utf8_len (sanitize_filename (lit ''a.'' @ replicate 300 (98::nat))) = 302 \<and> MAX_LEN_BYTES = 200"
proof -
  let ?f = "lit ''a.'' @ replicate 300 (98::nat)"
  let ?ext = "46 # replicate 300 (98::nat)"
  let ?t = "lit ''~.'' @ replicate 300 (98::nat)"
  have ok: "\<forall>c\<in>set ?f. ok_char c \<and> \<not> is_space c"
    by (simp add: ok_char_def is_reserved_char_def is_control_def is_space_def)
  have c: "clean_filename ?f = ?f" using ok by (intro clean_filename_id) simp_all
  have u: "utf8_len (replicate 300 (98::nat)) = 300" by (rule utf8_len_replicate) simp
  have le: "utf8_len ?ext = 301" using u by (simp add: utf8_len_def cp_bytes_def)
  have lf: "utf8_len ?f = 302" using u by (simp add: utf8_len_def cp_bytes_def)
  have lt: "utf8_len ?t = 302" using u by (simp add: utf8_len_def cp_bytes_def)
  have "rev ?f = replicate 300 (98::nat) @ [46, 97]" by simp
  then have "dropWhile (\<lambda>x. x \<noteq> 46) (rev ?f) = [46, 97]"
    by (simp add: dropWhile_replicate_append)
  then have "rfind 46 ?f = Some 1" by (simp add: rfind_def)
  then have sp: "splitext ?f = (lit ''a'', ?ext)" by (simp add: splitext_def)
  have "slice_end (int MAX_LEN_BYTES - int (utf8_len ?ext) - 1) (utf8_len (lit ''a'')) = 0"
    unfolding le by (simp add: slice_end_def MAX_LEN_BYTES_def utf8_len_def cp_bytes_def)
  then have tr: "truncate_filename ?f = ?t"
    using truncate_filename_cases [of ?f] lf unfolding sp by (simp add: MAX_LEN_BYTES_def)
  have "rev ?t = replicate 300 (98::nat) @ [46, 126]" by simp
  then have "dropWhile (\<lambda>x. x \<noteq> 46) (rev ?t) = [46, 126]"
    by (simp add: dropWhile_replicate_append)
  then have "rfind 46 ?t = Some 1" by (simp add: rfind_def)
  then have spt: "splitext ?t = (lit ''~'', ?ext)" by (simp add: splitext_def)
  have nr: "str_upper (lit ''~'') \<notin> set reserved_names"
    by (simp add: str_upper_def reserved_names_def)
  have "length (str_lower ?t) \<noteq> length (lit ''.dat'')" by (simp add: str_lower_def)
  then have nl: "str_lower ?t \<noteq> lit ''.dat''" by metis
  have ne: "?t \<noteq> []" by simp
  have "sanitize_filename ?f = ?t"
    unfolding sanitize_filename_alt c tr Let_def spt using nr nl ne by simp
  then show ?thesis using lt by (simp add: MAX_LEN_BYTES_def)
qed

end
